theory Spec2Isabelle
  imports Main "HOL-Library.Word" "HOL-Library.Signed_Division"
begin

unbundle bit_operations_syntax

section \<open>The minimal Forth interpreter (forth\_mini.c)\<close>

text \<open>
  A shallow embedding of \<^verbatim>\<open>src/forth_mini.c\<close>. The C program keeps its whole state in
  globals; the model passes them around as one record. The data model of an LP64 target
  is used: \<^verbatim>\<open>int\<close> is 32 bits, \<^verbatim>\<open>long\<close>, \<^verbatim>\<open>intptr_t\<close> and pointers are 64 bits.
\<close>

subsection \<open>Machine types and constants\<close>

type_synonym cint = "32 word"    \<comment> \<open>\<^verbatim>\<open>int\<close>\<close>
type_synonym clong = "64 word"   \<comment> \<open>\<^verbatim>\<open>long\<close>, \<^verbatim>\<open>intptr_t\<close>, \<^verbatim>\<open>uintptr_t\<close>\<close>
type_synonym ptr = "64 word"     \<comment> \<open>\<^verbatim>\<open>void *\<close>, \<^verbatim>\<open>Word *\<close>; \<open>0\<close> is \<^verbatim>\<open>NULL\<close>\<close>

definition STACK_SIZE :: int where "STACK_SIZE = 256"
definition WORD_SIZE :: nat where "WORD_SIZE = 32"

definition NULL :: ptr where "NULL = 0"

subsection \<open>Ways in which a run ends without returning\<close>

text \<open>
  \<open>Fatal\<close>: the program printed the message of the condition and called \<^verbatim>\<open>exit(1)\<close>.
  \<open>Undefined\<close>: the C code did something the language leaves undefined; nothing is
  reported by the program itself. \<open>OutOfFuel\<close>: the bound on the number of nested calls
  and loop rounds given to the model was reached (in C: the native call stack is
  exhausted by unbounded recursion).
\<close>

datatype fatal = StackOverflow | StackUnderflow | RStackOverflow | RStackUnderflow

datatype undefined_behaviour =
    ArrayOutOfBounds      \<comment> \<open>read or write outside \<^verbatim>\<open>stack[0..STACK_SIZE-1]\<close> or a body\<close>
  | DivisionByZero        \<comment> \<open>native \<^verbatim>\<open>/\<close> or \<^verbatim>\<open>%\<close> with divisor 0\<close>
  | DivisionOverflow      \<comment> \<open>\<^verbatim>\<open>INT_MIN / -1\<close>\<close>
  | BufferOverrun         \<comment> \<open>\<^verbatim>\<open>sscanf("%s")\<close> into a \<^verbatim>\<open>char[WORD_SIZE]\<close> that is too small\<close>
  | InvalidPointer        \<comment> \<open>dereferencing \<^verbatim>\<open>NULL\<close> or a pointer to no object\<close>

datatype fault = Fatal fatal | Undefined undefined_behaviour | OutOfFuel

definition fatal_message :: "fatal \<Rightarrow> string" where
  "fatal_message f = (case f of
      StackOverflow \<Rightarrow> ''Stack overflow!'' @ [CHR 0x0A]
    | StackUnderflow \<Rightarrow> ''Stack underflow!'' @ [CHR 0x0A]
    | RStackOverflow \<Rightarrow> ''Return stack overflow!'' @ [CHR 0x0A]
    | RStackUnderflow \<Rightarrow> ''Return stack underflow!'' @ [CHR 0x0A])"

subsection \<open>Dictionary entries and the interpreter state\<close>

text \<open>The native functions a \<^verbatim>\<open>code\<close> pointer can point to.\<close>

datatype prim =
    Add | Sub | Mul | Divide | Mod | Dup | Drop | Swap | Over | Rot
  | Emit | Cr | Dot | Dots | Eq | Lt | Gt | And | Or | Not | Colon | Semicolon

text \<open>
  \<^verbatim>\<open>struct Word\<close>. A \<^verbatim>\<open>NULL\<close> \<^verbatim>\<open>code\<close> or \<^verbatim>\<open>data\<close> pointer is \<open>None\<close>. The array
  \<^verbatim>\<open>data\<close> points to is owned by the entry (the compile buffer is handed over by
  \<^verbatim>\<open>end_compile\<close>, which then forgets it), so it is held by value: the list of the cells
  written so far. The \<^verbatim>\<open>next\<close> pointer is the order of the dictionary list below.
\<close>

record Word =
  name :: string
  is_immediate :: int
  code :: "prim option"
  data :: "ptr list option"
  data_len :: int

text \<open>
  The globals. Every \<^verbatim>\<open>Word\<close> is allocated by \<^verbatim>\<open>add_word\<close> or \<^verbatim>\<open>colon\<close>, linked at once
  in front of the list \<^verbatim>\<open>dictionary\<close>, and its \<^verbatim>\<open>next\<close> link is never written again: the
  linked list is the list of the allocated structs with their addresses, newest first,
  and serves as the store for \<^verbatim>\<open>Word *\<close> as well. The arrays \<^verbatim>\<open>stack\<close> and \<^verbatim>\<open>rstack\<close> are
  functions from the index, every access checked against the bounds of the array.
  \<open>input_ptr\<close> is the rest of the line from the cursor on; \<open>out\<close> is what has been
  written to standard output; \<open>brk\<close> is the next address \<^verbatim>\<open>malloc\<close> gives to a
  \<^verbatim>\<open>Word\<close>.
\<close>

record state =
  stack :: "int \<Rightarrow> cint"
  sp :: int
  rstack :: "int \<Rightarrow> cint"
  rsp :: int
  dictionary :: "(ptr \<times> Word) list"
  current_word :: ptr
  compiling :: int
  compile_buffer :: "ptr list option"
  compile_pos :: int
  compile_size :: int
  input_ptr :: string
  out :: string
  brk :: ptr

definition printf :: "string \<Rightarrow> state \<Rightarrow> state" where
  "printf s st = st\<lparr>out := out st @ s\<rparr>"

subsection \<open>C library functions used by the program\<close>

definition isspace :: "char \<Rightarrow> bool" where
  "isspace c = (let n = (of_char c :: nat) in n = 32 \<or> (9 \<le> n \<and> n \<le> 13))"

definition isdigit :: "char \<Rightarrow> bool" where
  "isdigit c = (let n = (of_char c :: nat) in 48 \<le> n \<and> n \<le> 57)"

text \<open>\<^verbatim>\<open>tolower\<close> in the C locale, on the character codes, as the C function is.\<close>

definition tolower :: "char \<Rightarrow> int" where
  "tolower c = (let n = (of_char c :: int) in if 65 \<le> n \<and> n \<le> 90 then n + 32 else n)"

fun strcasecmp :: "string \<Rightarrow> string \<Rightarrow> int" where
  "strcasecmp [] [] = 0"
| "strcasecmp [] (b # bs) = - tolower b"
| "strcasecmp (a # as) [] = tolower a"
| "strcasecmp (a # as) (b # bs) =
     (if tolower a = tolower b then strcasecmp as bs else tolower a - tolower b)"

text \<open>
  \<^verbatim>\<open>strstr(hay, needle)\<close>: the suffix of \<open>hay\<close> that starts at the first occurrence of
  \<open>needle\<close>, \<open>None\<close> for \<^verbatim>\<open>NULL\<close>.
\<close>

fun strstr :: "string \<Rightarrow> string \<Rightarrow> string option" where
  "strstr [] needle = (if needle = [] then Some [] else None)"
| "strstr (c # cs) needle =
     (if take (length needle) (c # cs) = needle then Some (c # cs) else strstr cs needle)"

text \<open>
  \<^verbatim>\<open>sscanf(s, "%s", buf)\<close>: skips white space and reads the characters up to the next white
  space. \<open>None\<close> when the string ends before a character is read (the call returns
  \<^verbatim>\<open>EOF\<close>, which is not 1).
\<close>

definition sscanf_s :: "string \<Rightarrow> string option" where
  "sscanf_s s =
     (let t = takeWhile (\<lambda>c. \<not> isspace c) (dropWhile isspace s)
      in if t = [] then None else Some t)"

definition LONG_MAX :: int where "LONG_MAX = 2 ^ 63 - 1"
definition LONG_MIN :: int where "LONG_MIN = - (2 ^ 63)"

fun digits_value :: "int \<Rightarrow> string \<Rightarrow> int" where
  "digits_value acc [] = acc"
| "digits_value acc (c # cs) = digits_value (10 * acc + (int (of_char c) - 48)) cs"

text \<open>
  \<^verbatim>\<open>strtol(s, &endptr, 10)\<close>: the value and the text \<^verbatim>\<open>endptr\<close> points to. White space,
  an optional sign, decimal digits; the value is clamped to the range of \<^verbatim>\<open>long\<close>; with no
  digit nothing is converted and \<^verbatim>\<open>endptr\<close> is \<open>s\<close>.
\<close>

definition strtol :: "string \<Rightarrow> clong \<times> string" where
  "strtol s =
     (let s1 = dropWhile isspace s;
          neg = (s1 \<noteq> [] \<and> hd s1 = CHR ''-'');
          s2 = (if s1 \<noteq> [] \<and> (hd s1 = CHR ''-'' \<or> hd s1 = CHR ''+'') then tl s1 else s1);
          ds = takeWhile isdigit s2;
          v = digits_value 0 ds;
          v' = (if neg then - v else v)
      in if ds = [] then (0, s)
         else (word_of_int (max LONG_MIN (min LONG_MAX v')), dropWhile isdigit s2))"

definition digit_char :: "nat \<Rightarrow> char" where
  "digit_char d = ''0123456789'' ! d"

fun show_nat :: "nat \<Rightarrow> string" where
  "show_nat n = (if n < 10 then [digit_char n] else show_nat (n div 10) @ [digit_char (n mod 10)])"

declare show_nat.simps [simp del]

text \<open>The conversion \<^verbatim>\<open>%d\<close> of \<^verbatim>\<open>printf\<close>.\<close>

definition show_int :: "int \<Rightarrow> string" where
  "show_int i = (if i < 0 then CHR ''-'' # show_nat (nat (- i)) else show_nat (nat i))"

text \<open>
  \<^verbatim>\<open>malloc(sizeof(Word))\<close>: a fresh, non-null, 16-byte aligned address, or \<open>None\<close>
  (\<^verbatim>\<open>NULL\<close>) when the address space is used up. The allocator is modelled as handing
  out consecutive blocks of 80 bytes (the 72 bytes of the struct, rounded up to the
  alignment).
\<close>

definition heap_base :: ptr where "heap_base = 4096"
definition Word_block :: nat where "Word_block = 80"

definition malloc_Word :: "state \<Rightarrow> (ptr \<times> state) option" where
  "malloc_Word st =
     (if unat (brk st) + Word_block < 2 ^ 64
      then Some (brk st, st\<lparr>brk := brk st + word_of_nat Word_block\<rparr>)
      else None)"

subsection \<open>Stack operations\<close>

definition stack_read :: "state \<Rightarrow> int \<Rightarrow> fault + cint" where
  "stack_read st i =
     (if 0 \<le> i \<and> i < STACK_SIZE then Inr (stack st i) else Inl (Undefined ArrayOutOfBounds))"

definition stack_write :: "int \<Rightarrow> cint \<Rightarrow> state \<Rightarrow> fault + state" where
  "stack_write i v st =
     (if 0 \<le> i \<and> i < STACK_SIZE then Inr (st\<lparr>stack := (stack st)(i := v)\<rparr>)
      else Inl (Undefined ArrayOutOfBounds))"

definition push :: "cint \<Rightarrow> state \<Rightarrow> fault + state" where
  "push val st =
     (if sp st \<ge> STACK_SIZE then Inl (Fatal StackOverflow)
      else case stack_write (sp st) val st of
             Inl e \<Rightarrow> Inl e
           | Inr st' \<Rightarrow> Inr (st'\<lparr>sp := sp st' + 1\<rparr>))"

definition pop :: "state \<Rightarrow> fault + (cint \<times> state)" where
  "pop st =
     (if sp st \<le> 0 then Inl (Fatal StackUnderflow)
      else let st' = st\<lparr>sp := sp st - 1\<rparr>
           in case stack_read st' (sp st') of
                Inl e \<Rightarrow> Inl e
              | Inr v \<Rightarrow> Inr (v, st'))"

definition rstack_read :: "state \<Rightarrow> int \<Rightarrow> fault + cint" where
  "rstack_read st i =
     (if 0 \<le> i \<and> i < STACK_SIZE then Inr (rstack st i) else Inl (Undefined ArrayOutOfBounds))"

definition rstack_write :: "int \<Rightarrow> cint \<Rightarrow> state \<Rightarrow> fault + state" where
  "rstack_write i v st =
     (if 0 \<le> i \<and> i < STACK_SIZE then Inr (st\<lparr>rstack := (rstack st)(i := v)\<rparr>)
      else Inl (Undefined ArrayOutOfBounds))"

definition rpush :: "cint \<Rightarrow> state \<Rightarrow> fault + state" where
  "rpush val st =
     (if rsp st \<ge> STACK_SIZE then Inl (Fatal RStackOverflow)
      else case rstack_write (rsp st) val st of
             Inl e \<Rightarrow> Inl e
           | Inr st' \<Rightarrow> Inr (st'\<lparr>rsp := rsp st' + 1\<rparr>))"

definition rpop :: "state \<Rightarrow> fault + (cint \<times> state)" where
  "rpop st =
     (if rsp st \<le> 0 then Inl (Fatal RStackUnderflow)
      else let st' = st\<lparr>rsp := rsp st - 1\<rparr>
           in case rstack_read st' (rsp st') of
                Inl e \<Rightarrow> Inl e
              | Inr v \<Rightarrow> Inr (v, st'))"

subsection \<open>Primitive words\<close>

definition add :: "state \<Rightarrow> fault + state" where
  "add st = (case pop st of Inl e \<Rightarrow> Inl e | Inr (b, st1) \<Rightarrow>
             (case pop st1 of Inl e \<Rightarrow> Inl e | Inr (a, st2) \<Rightarrow> push (a + b) st2))"

definition sub :: "state \<Rightarrow> fault + state" where
  "sub st = (case pop st of Inl e \<Rightarrow> Inl e | Inr (b, st1) \<Rightarrow>
             (case pop st1 of Inl e \<Rightarrow> Inl e | Inr (a, st2) \<Rightarrow> push (a - b) st2))"

definition mul :: "state \<Rightarrow> fault + state" where
  "mul st = (case pop st of Inl e \<Rightarrow> Inl e | Inr (b, st1) \<Rightarrow>
             (case pop st1 of Inl e \<Rightarrow> Inl e | Inr (a, st2) \<Rightarrow> push (a * b) st2))"

text \<open>
  \<^verbatim>\<open>a / b\<close> and \<^verbatim>\<open>a % b\<close> on \<^verbatim>\<open>int\<close>: truncation towards zero. The source has no check
  of the divisor: with \<open>b = 0\<close>, and with \<^verbatim>\<open>INT_MIN / -1\<close>, the behaviour is undefined.
\<close>

definition c_div :: "cint \<Rightarrow> cint \<Rightarrow> fault + cint" where
  "c_div a b =
     (if b = 0 then Inl (Undefined DivisionByZero)
      else if sint a = - (2 ^ 31) \<and> sint b = - 1 then Inl (Undefined DivisionOverflow)
      else Inr (word_of_int (sint a sdiv sint b)))"

definition c_mod :: "cint \<Rightarrow> cint \<Rightarrow> fault + cint" where
  "c_mod a b =
     (if b = 0 then Inl (Undefined DivisionByZero)
      else if sint a = - (2 ^ 31) \<and> sint b = - 1 then Inl (Undefined DivisionOverflow)
      else Inr (word_of_int (sint a smod sint b)))"

definition divide :: "state \<Rightarrow> fault + state" where
  "divide st = (case pop st of Inl e \<Rightarrow> Inl e | Inr (b, st1) \<Rightarrow>
                (case pop st1 of Inl e \<Rightarrow> Inl e | Inr (a, st2) \<Rightarrow>
                  (case c_div a b of Inl e \<Rightarrow> Inl e | Inr q \<Rightarrow> push q st2)))"

definition mod_w :: "state \<Rightarrow> fault + state" where
  "mod_w st = (case pop st of Inl e \<Rightarrow> Inl e | Inr (b, st1) \<Rightarrow>
               (case pop st1 of Inl e \<Rightarrow> Inl e | Inr (a, st2) \<Rightarrow>
                 (case c_mod a b of Inl e \<Rightarrow> Inl e | Inr r \<Rightarrow> push r st2)))"

text \<open>\<^verbatim>\<open>int a = stack[sp-1]; push(a);\<close> reads the array itself, with no call of \<^verbatim>\<open>pop\<close>.\<close>

definition dup :: "state \<Rightarrow> fault + state" where
  "dup st = (case stack_read st (sp st - 1) of Inl e \<Rightarrow> Inl e | Inr a \<Rightarrow> push a st)"

definition drop_w :: "state \<Rightarrow> fault + state" where
  "drop_w st = (case pop st of Inl e \<Rightarrow> Inl e | Inr (a, st1) \<Rightarrow> Inr st1)"

definition swap_w :: "state \<Rightarrow> fault + state" where
  "swap_w st = (case pop st of Inl e \<Rightarrow> Inl e | Inr (a, st1) \<Rightarrow>
                (case pop st1 of Inl e \<Rightarrow> Inl e | Inr (b, st2) \<Rightarrow>
                  (case push a st2 of Inl e \<Rightarrow> Inl e | Inr st3 \<Rightarrow> push b st3)))"

definition over :: "state \<Rightarrow> fault + state" where
  "over st = (case pop st of Inl e \<Rightarrow> Inl e | Inr (a, st1) \<Rightarrow>
              (case pop st1 of Inl e \<Rightarrow> Inl e | Inr (b, st2) \<Rightarrow>
                (case push b st2 of Inl e \<Rightarrow> Inl e | Inr st3 \<Rightarrow>
                  (case push a st3 of Inl e \<Rightarrow> Inl e | Inr st4 \<Rightarrow> push b st4))))"

definition rot :: "state \<Rightarrow> fault + state" where
  "rot st = (case pop st of Inl e \<Rightarrow> Inl e | Inr (c, st1) \<Rightarrow>
             (case pop st1 of Inl e \<Rightarrow> Inl e | Inr (b, st2) \<Rightarrow>
               (case pop st2 of Inl e \<Rightarrow> Inl e | Inr (a, st3) \<Rightarrow>
                 (case push b st3 of Inl e \<Rightarrow> Inl e | Inr st4 \<Rightarrow>
                   (case push c st4 of Inl e \<Rightarrow> Inl e | Inr st5 \<Rightarrow> push a st5)))))"

text \<open>\<^verbatim>\<open>%c\<close> writes the argument converted to \<^verbatim>\<open>unsigned char\<close>.\<close>

definition emit :: "state \<Rightarrow> fault + state" where
  "emit st = (case pop st of Inl e \<Rightarrow> Inl e | Inr (a, st1) \<Rightarrow> Inr (printf [char_of (uint a)] st1))"

definition cr :: "state \<Rightarrow> fault + state" where
  "cr st = Inr (printf [CHR 0x0A] st)"

definition dot :: "state \<Rightarrow> fault + state" where
  "dot st = (case pop st of Inl e \<Rightarrow> Inl e | Inr (a, st1) \<Rightarrow> Inr (printf (show_int (sint a) @ '' '') st1))"

text \<open>The loop \<^verbatim>\<open>for (int i = 0; i < sp; i++) printf("%d ", stack[i]);\<close> of \<^verbatim>\<open>dots\<close>.\<close>

function dots_loop :: "int \<Rightarrow> state \<Rightarrow> fault + state" where
  "dots_loop i st =
     (if i < sp st
      then (case stack_read st i of
              Inl e \<Rightarrow> Inl e
            | Inr v \<Rightarrow> dots_loop (i + 1) (printf (show_int (sint v) @ '' '') st))
      else Inr st)"
  by pat_completeness auto
termination
  by (relation "measure (\<lambda>(i, st). nat (sp st - i))") (auto simp: printf_def)

declare dots_loop.simps [simp del]

definition dots :: "state \<Rightarrow> fault + state" where
  "dots st =
     (case dots_loop 0 (printf (''<sp='' @ show_int (sp st) @ ''> '') st) of
        Inl e \<Rightarrow> Inl e
      | Inr st' \<Rightarrow> Inr (printf [CHR 0x0A] st'))"

definition eq_w :: "state \<Rightarrow> fault + state" where
  "eq_w st = (case pop st of Inl e \<Rightarrow> Inl e | Inr (b, st1) \<Rightarrow>
              (case pop st1 of Inl e \<Rightarrow> Inl e | Inr (a, st2) \<Rightarrow> push (if a = b then - 1 else 0) st2))"

definition lt :: "state \<Rightarrow> fault + state" where
  "lt st = (case pop st of Inl e \<Rightarrow> Inl e | Inr (b, st1) \<Rightarrow>
            (case pop st1 of Inl e \<Rightarrow> Inl e | Inr (a, st2) \<Rightarrow> push (if sint a < sint b then - 1 else 0) st2))"

definition gt :: "state \<Rightarrow> fault + state" where
  "gt st = (case pop st of Inl e \<Rightarrow> Inl e | Inr (b, st1) \<Rightarrow>
            (case pop st1 of Inl e \<Rightarrow> Inl e | Inr (a, st2) \<Rightarrow> push (if sint a > sint b then - 1 else 0) st2))"

definition and_w :: "state \<Rightarrow> fault + state" where
  "and_w st = (case pop st of Inl e \<Rightarrow> Inl e | Inr (b, st1) \<Rightarrow>
               (case pop st1 of Inl e \<Rightarrow> Inl e | Inr (a, st2) \<Rightarrow> push (a AND b) st2))"

definition or_w :: "state \<Rightarrow> fault + state" where
  "or_w st = (case pop st of Inl e \<Rightarrow> Inl e | Inr (b, st1) \<Rightarrow>
              (case pop st1 of Inl e \<Rightarrow> Inl e | Inr (a, st2) \<Rightarrow> push (a OR b) st2))"

definition not_w :: "state \<Rightarrow> fault + state" where
  "not_w st = (case pop st of Inl e \<Rightarrow> Inl e | Inr (a, st1) \<Rightarrow> push (NOT a) st1)"

subsection \<open>Dictionary operations\<close>

text \<open>
  \<^verbatim>\<open>find_word\<close> walks the list from the newest entry and returns the address of the first
  entry whose name matches, \<^verbatim>\<open>NULL\<close> when there is none.
\<close>

fun find_word_from :: "(ptr \<times> Word) list \<Rightarrow> string \<Rightarrow> ptr" where
  "find_word_from [] nm = NULL"
| "find_word_from ((w, wd) # rest) nm =
     (if strcasecmp (name wd) nm = 0 then w else find_word_from rest nm)"

definition find_word :: "state \<Rightarrow> string \<Rightarrow> ptr" where
  "find_word st nm = find_word_from (dictionary st) nm"

text \<open>Reading and writing the struct a \<^verbatim>\<open>Word *\<close> points to.\<close>

definition deref :: "state \<Rightarrow> ptr \<Rightarrow> Word option" where
  "deref st w = map_of (dictionary st) w"

fun store_from :: "(ptr \<times> Word) list \<Rightarrow> ptr \<Rightarrow> (Word \<Rightarrow> Word) \<Rightarrow> (ptr \<times> Word) list" where
  "store_from [] w f = []"
| "store_from ((a, wd) # rest) w f =
     (if a = w then (a, f wd) # rest else (a, wd) # store_from rest w f)"

definition add_word :: "string \<Rightarrow> prim \<Rightarrow> int \<Rightarrow> state \<Rightarrow> fault + state" where
  "add_word nm c immediate st =
     (case malloc_Word st of
        None \<Rightarrow> Inl (Undefined InvalidPointer)
      | Some (w, st1) \<Rightarrow>
          Inr (st1\<lparr>dictionary :=
                 (w, \<lparr>name = take (WORD_SIZE - 1) nm, is_immediate = immediate,
                      code = Some c, data = None, data_len = 0\<rparr>) # dictionary st1\<rparr>))"

subsection \<open>Compilation\<close>

text \<open>
  The buffer \<^verbatim>\<open>malloc\<close> and \<^verbatim>\<open>realloc\<close> return is held by value, as the list of the cells
  written so far; its capacity is \<open>compile_size\<close>.
\<close>

definition start_compile :: "state \<Rightarrow> state" where
  "start_compile st = st\<lparr>compile_size := 64, compile_buffer := Some [], compile_pos := 0, compiling := 1\<rparr>"

definition compile_item :: "ptr \<Rightarrow> state \<Rightarrow> fault + state" where
  "compile_item val st =
     (let st1 = (if compile_pos st \<ge> compile_size st
                 then st\<lparr>compile_size := compile_size st * 2\<rparr> else st)
      in case compile_buffer st1 of
           None \<Rightarrow> Inl (Undefined InvalidPointer)
         | Some buf \<Rightarrow>
             if compile_pos st1 < 0 then Inl (Undefined ArrayOutOfBounds)
             else Inr (st1\<lparr>compile_buffer := Some (take (nat (compile_pos st1)) buf @ [val]),
                          compile_pos := compile_pos st1 + 1\<rparr>))"

definition end_compile :: "state \<Rightarrow> state" where
  "end_compile st =
     (let st1 = (if current_word st \<noteq> NULL
                 then st\<lparr>dictionary := store_from (dictionary st) (current_word st)
                        (\<lambda>wd. wd\<lparr>data := compile_buffer st, data_len := compile_pos st\<rparr>)\<rparr>
                 else st)
      in st1\<lparr>compile_buffer := None, compile_pos := 0, compile_size := 0,
             compiling := 0, current_word := NULL\<rparr>)"

definition colon :: "state \<Rightarrow> fault + state" where
  "colon st =
     (case sscanf_s (input_ptr st) of
        None \<Rightarrow> Inr (printf (''Error: expected word name after ':'' @ [CHR 0x27, CHR 0x0A]) st)
      | Some nm \<Rightarrow>
          if length nm \<ge> WORD_SIZE then Inl (Undefined BufferOverrun)
          else (case strstr (input_ptr st) nm of
                  None \<Rightarrow> Inl (Undefined InvalidPointer)
                | Some p \<Rightarrow>
                    let st1 = st\<lparr>input_ptr := drop (length nm) p\<rparr>
                    in (case malloc_Word st1 of
                          None \<Rightarrow> Inl (Undefined InvalidPointer)
                        | Some (w, st2) \<Rightarrow>
                            Inr (start_compile
                              (st2\<lparr>dictionary :=
                                     (w, \<lparr>name = take (WORD_SIZE - 1) nm, is_immediate = 0,
                                          code = None, data = None, data_len = 0\<rparr>) # dictionary st2,
                                   current_word := w\<rparr>)))))"

definition semicolon :: "state \<Rightarrow> fault + state" where
  "semicolon st =
     (if compiling st = 0
      then Inr (printf (''Error: ';' outside definition'' @ [CHR 0x0A]) st)
      else Inr (end_compile st))"

subsection \<open>Executing a word\<close>

definition run_prim :: "prim \<Rightarrow> state \<Rightarrow> fault + state" where
  "run_prim p st = (case p of
      Add \<Rightarrow> add st | Sub \<Rightarrow> sub st | Mul \<Rightarrow> mul st | Divide \<Rightarrow> divide st | Mod \<Rightarrow> mod_w st
    | Dup \<Rightarrow> dup st | Drop \<Rightarrow> drop_w st | Swap \<Rightarrow> swap_w st | Over \<Rightarrow> over st | Rot \<Rightarrow> rot st
    | Emit \<Rightarrow> emit st | Cr \<Rightarrow> cr st | Dot \<Rightarrow> dot st | Dots \<Rightarrow> dots st
    | Eq \<Rightarrow> eq_w st | Lt \<Rightarrow> lt st | Gt \<Rightarrow> gt st
    | And \<Rightarrow> and_w st | Or \<Rightarrow> or_w st | Not \<Rightarrow> not_w st
    | Colon \<Rightarrow> colon st | Semicolon \<Rightarrow> semicolon st)"

text \<open>
  The tag of a cell of a body: \<^verbatim>\<open>(void*)((intptr_t)(num << 1) | 1)\<close> for a number, read
  back by \<^verbatim>\<open>(int)((intptr_t)val >> 1)\<close> when \<^verbatim>\<open>(uintptr_t)val & 1\<close> is set. The shifts
  are those of a two's complement machine: \<^verbatim>\<open><<\<close> drops the top bit, \<^verbatim>\<open>>>\<close> on a signed
  value keeps the sign, the conversion to \<^verbatim>\<open>int\<close> keeps the low 32 bits.
\<close>

definition tag_number :: "clong \<Rightarrow> ptr" where
  "tag_number num = push_bit 1 num OR 1"

definition is_number_cell :: "ptr \<Rightarrow> bool" where
  "is_number_cell val = (val AND 1 \<noteq> 0)"

definition decode_number :: "ptr \<Rightarrow> cint" where
  "decode_number val = ucast (signed_drop_bit 1 val)"

text \<open>
  \<^verbatim>\<open>execute_word\<close> and the loop over the body in it. The first argument bounds the
  number of nested calls and loop rounds that are left. The loop reads \<^verbatim>\<open>w->data_len\<close>
  and \<^verbatim>\<open>w->data[i]\<close> from the entry in every round, as the source does.
\<close>

fun execute_word :: "nat \<Rightarrow> ptr \<Rightarrow> state \<Rightarrow> fault + state"
  and execute_body :: "nat \<Rightarrow> ptr \<Rightarrow> int \<Rightarrow> state \<Rightarrow> fault + state" where
  "execute_word 0 w st = Inl OutOfFuel"
| "execute_word (Suc n) w st =
     (case deref st w of
        None \<Rightarrow> Inl (Undefined InvalidPointer)
      | Some wd \<Rightarrow>
          (case code wd of
             Some p \<Rightarrow> run_prim p st
           | None \<Rightarrow> if data wd \<noteq> None then execute_body n w 0 st else Inr st))"
| "execute_body 0 w i st = Inl OutOfFuel"
| "execute_body (Suc n) w i st =
     (case deref st w of
        None \<Rightarrow> Inl (Undefined InvalidPointer)
      | Some wd \<Rightarrow>
          if i < data_len wd
          then (case data wd of
                  None \<Rightarrow> Inl (Undefined InvalidPointer)
                | Some cells \<Rightarrow>
                    if i < 0 \<or> int (length cells) \<le> i then Inl (Undefined ArrayOutOfBounds)
                    else let val = cells ! nat i
                         in if is_number_cell val
                            then (case push (decode_number val) st of
                                    Inl e \<Rightarrow> Inl e
                                  | Inr st' \<Rightarrow> execute_body n w (i + 1) st')
                            else (case execute_word n val st of
                                    Inl e \<Rightarrow> Inl e
                                  | Inr st' \<Rightarrow> execute_body n w (i + 1) st'))
          else Inr st)"

subsection \<open>The interpreter\<close>

text \<open>
  One round of the \<^verbatim>\<open>while\<close> loop of \<^verbatim>\<open>interpret\<close>, from the \<^verbatim>\<open>sscanf\<close> in its condition
  to the end of its body. \<open>Continue\<close>: the loop goes on with the next round (the end of the
  body, or \<^verbatim>\<open>continue\<close>); \<open>Return\<close>: the function returns (the condition is false, or
  \<^verbatim>\<open>return\<close>); \<open>Abort\<close>: the run ends in the round. The first argument is the bound that
  \<^verbatim>\<open>execute_word\<close> gets.
\<close>

datatype round = Continue state | Return state | Abort fault

definition interpret_round :: "nat \<Rightarrow> state \<Rightarrow> round" where
  "interpret_round n st =
     (case sscanf_s (input_ptr st) of
        None \<Rightarrow> Return st
      | Some word \<Rightarrow>
          if length word \<ge> WORD_SIZE then Abort (Undefined BufferOverrun)
          else (case strstr (input_ptr st) word of
                  None \<Rightarrow> Abort (Undefined InvalidPointer)
                | Some p \<Rightarrow>
                    let st1 = st\<lparr>input_ptr := drop (length word) p\<rparr>;
                        (num, endptr) = strtol word
                    in if endptr = []
                       then (if compiling st1 \<noteq> 0
                             then (case compile_item (tag_number num) st1 of
                                     Inl e \<Rightarrow> Abort e
                                   | Inr st2 \<Rightarrow> Continue st2)
                             else (case push (ucast num) st1 of
                                     Inl e \<Rightarrow> Abort e
                                   | Inr st2 \<Rightarrow> Continue st2))
                       else let w = find_word st1 word
                            in if w \<noteq> NULL
                               then (case deref st1 w of
                                       None \<Rightarrow> Abort (Undefined InvalidPointer)
                                     | Some wd \<Rightarrow>
                                         if compiling st1 \<noteq> 0 \<and> is_immediate wd = 0
                                         then (case compile_item w st1 of
                                                 Inl e \<Rightarrow> Abort e
                                               | Inr st2 \<Rightarrow> Continue st2)
                                         else (case execute_word n w st1 of
                                                 Inl e \<Rightarrow> Abort e
                                               | Inr st2 \<Rightarrow> Continue st2))
                               else let st2 = printf (''Unknown word: '' @ word @ [CHR 0x0A]) st1
                                    in Return (if compiling st2 \<noteq> 0 then end_compile st2 else st2)))"

text \<open>The loop: one round per unit of the bound, the rest of the bound goes to the round.\<close>

fun interpret_loop :: "nat \<Rightarrow> state \<Rightarrow> fault + state" where
  "interpret_loop 0 st = Inl OutOfFuel"
| "interpret_loop (Suc n) st =
     (case interpret_round n st of
        Continue st' \<Rightarrow> interpret_loop n st'
      | Return st' \<Rightarrow> Inr st'
      | Abort e \<Rightarrow> Inl e)"

text \<open>
  \<^verbatim>\<open>interpret\<close> (named \<open>interpret_line\<close> here). A C string ends at its first NUL
  character.
\<close>

definition c_str :: "string \<Rightarrow> string" where
  "c_str s = takeWhile (\<lambda>c. c \<noteq> CHR 0x00) s"

definition interpret_line :: "nat \<Rightarrow> string \<Rightarrow> state \<Rightarrow> fault + state" where
  "interpret_line n input_line st = interpret_loop n (st\<lparr>input_ptr := c_str input_line\<rparr>)"

text \<open>The calls of \<^verbatim>\<open>interpret\<close> that the read loop of \<^verbatim>\<open>main\<close> makes for a list of lines.\<close>

fun interpret_lines :: "nat \<Rightarrow> string list \<Rightarrow> state \<Rightarrow> fault + state" where
  "interpret_lines n [] st = Inr st"
| "interpret_lines n (l # ls) st =
     (case interpret_line n l st of Inl e \<Rightarrow> Inl e | Inr st' \<Rightarrow> interpret_lines n ls st')"

subsection \<open>The initial dictionary\<close>

text \<open>The globals as the program starts: zero initialised, nothing allocated.\<close>

definition startup :: state where
  "startup = \<lparr>stack = (\<lambda>i. 0), sp = 0, rstack = (\<lambda>i. 0), rsp = 0, dictionary = [],
     current_word = NULL, compiling = 0, compile_buffer = None, compile_pos = 0,
     compile_size = 0, input_ptr = [], out = [], brk = heap_base\<rparr>"

definition builtins :: "(string \<times> prim \<times> int) list" where
  "builtins =
     [(''+'', Add, 0), (''-'', Sub, 0), (''*'', Mul, 0), (''/'', Divide, 0), (''MOD'', Mod, 0),
      (''DUP'', Dup, 0), (''DROP'', Drop, 0), (''SWAP'', Swap, 0), (''OVER'', Over, 0),
      (''ROT'', Rot, 0), (''EMIT'', Emit, 0), (''CR'', Cr, 0), (''.'', Dot, 0), (''.S'', Dots, 0),
      (''='', Eq, 0), (''<'', Lt, 0), (''>'', Gt, 0), (''AND'', And, 0), (''OR'', Or, 0),
      (''NOT'', Not, 0), ('':'', Colon, 0), ('';'', Semicolon, 1)]"

fun add_words :: "(string \<times> prim \<times> int) list \<Rightarrow> state \<Rightarrow> fault + state" where
  "add_words [] st = Inr st"
| "add_words ((nm, c, imm) # rest) st =
     (case add_word nm c imm st of Inl e \<Rightarrow> Inl e | Inr st' \<Rightarrow> add_words rest st')"

definition init_forth :: "state \<Rightarrow> fault + state" where
  "init_forth st = add_words builtins st"

subsection \<open>The state after start-up, and what is observed of a state\<close>

text \<open>The interpreter as \<^verbatim>\<open>main\<close> has it after \<^verbatim>\<open>init_forth()\<close>.\<close>

definition forth0 :: state where
  "forth0 = (case init_forth startup of Inr st \<Rightarrow> st | Inl e \<Rightarrow> startup)"

text \<open>The valid region of the data stack, bottom first.\<close>

definition data_stack :: "state \<Rightarrow> cint list" where
  "data_stack st = map (\<lambda>i. stack st (int i)) [0..<nat (sp st)]"

text \<open>A run of \<^verbatim>\<open>push\<close> calls, and a run of \<^verbatim>\<open>pop\<close> calls with the values they return.\<close>

fun pushes :: "cint list \<Rightarrow> state \<Rightarrow> fault + state" where
  "pushes [] st = Inr st"
| "pushes (v # vs) st = (case push v st of Inl e \<Rightarrow> Inl e | Inr st' \<Rightarrow> pushes vs st')"

fun pops :: "nat \<Rightarrow> state \<Rightarrow> fault + (cint list \<times> state)" where
  "pops 0 st = Inr ([], st)"
| "pops (Suc k) st =
     (case pop st of
        Inl e \<Rightarrow> Inl e
      | Inr (v, st') \<Rightarrow> (case pops k st' of Inl e \<Rightarrow> Inl e | Inr (vs, st'') \<Rightarrow> Inr (v # vs, st'')))"

text \<open>The body, and its length, of the entry a name resolves to.\<close>

definition body_of :: "state \<Rightarrow> string \<Rightarrow> (ptr list option \<times> int) option" where
  "body_of st nm =
     (case deref st (find_word st nm) of None \<Rightarrow> None | Some wd \<Rightarrow> Some (data wd, data_len wd))"

text \<open>
  The state in which a round goes on after it has read the token \<open>tok\<close>: the cursor is behind
  the token.
\<close>

definition consume :: "string \<Rightarrow> state \<Rightarrow> state" where
  "consume tok st = st\<lparr>input_ptr := drop (length tok) (dropWhile isspace (input_ptr st))\<rparr>"

text \<open>A token that \<^verbatim>\<open>strtol\<close> does not convert to its end: not a number for \<^verbatim>\<open>interpret\<close>.\<close>

definition is_number :: "string \<Rightarrow> bool" where
  "is_number tok = (snd (strtol tok) = [])"

text \<open>The state a call returned with (the state at start-up if it did not return).\<close>

definition the_state :: "fault + state \<Rightarrow> state" where
  "the_state r = (case r of Inr st \<Rightarrow> st | Inl e \<Rightarrow> startup)"

subsection \<open>The states the interpreter passes through\<close>

text \<open>
  The states of the interpreter between the rounds of its loop, in any run from start-up:
  the state after \<^verbatim>\<open>init_forth\<close>, the state in which \<^verbatim>\<open>interpret\<close> starts on a line, and the
  states in which a round ends.
\<close>

inductive reach :: "state \<Rightarrow> bool" where
  start: "reach forth0"
| line: "reach st \<Longrightarrow> reach (st\<lparr>input_ptr := c_str l\<rparr>)"
| continue: "reach st \<Longrightarrow> interpret_round n st = Continue st' \<Longrightarrow> reach st'"
| return: "reach st \<Longrightarrow> interpret_round n st = Return st' \<Longrightarrow> reach st'"

text \<open>The address of the entry of the built-in \<^verbatim>\<open>;\<close>, the one immediate word.\<close>

definition semicolon_entry :: ptr where
  "semicolon_entry = find_word forth0 '';''"

text \<open>
  What holds of the dictionary and the compiler in all these states: the dictionary is
  the built-in entries with the user's entries in front of them; the user's entries are not
  immediate, have no native code, lie at the even addresses \<^verbatim>\<open>malloc\<close> gave after start-up, and
  a body that is there has \<open>data_len\<close> cells; no body and no compile buffer holds the
  address of \<^verbatim>\<open>;\<close>; outside a definition there is no entry under definition; inside one,
  the entry under definition is the newest entry, the buffer is there and \<open>compile_pos\<close> is
  the number of its cells.
\<close>

definition wf :: "state \<Rightarrow> bool" where
  "wf st =
     (\<exists>us. dictionary st = us @ dictionary forth0 \<and>
        (\<forall>(a, wd) \<in> set us. is_immediate wd = 0 \<and> code wd = None \<and>
           brk forth0 \<le> a \<and> a < brk st \<and> \<not> is_number_cell a \<and>
           (\<forall>cells. data wd = Some cells \<longrightarrow>
              semicolon_entry \<notin> set cells \<and> data_len wd = int (length cells))) \<and>
        (brk forth0 \<le> brk st \<and> \<not> is_number_cell (brk st)) \<and>
        (\<forall>cells. compile_buffer st = Some cells \<longrightarrow> semicolon_entry \<notin> set cells) \<and>
        (if compiling st = 0 then current_word st = NULL
         else (\<exists>wd rest buf. us = (current_word st, wd) # rest \<and>
                 compile_buffer st = Some buf \<and> compile_pos st = int (length buf))))"

text \<open>The part of the state that the words working on the stacks and the output leave alone.\<close>

definition compiler_state ::
  "state \<Rightarrow> (ptr \<times> Word) list \<times> ptr \<times> int \<times> ptr list option \<times> int \<times> int \<times> ptr \<times> string" where
  "compiler_state st =
     (dictionary st, current_word st, compiling st, compile_buffer st, compile_pos st,
      compile_size st, brk st, input_ptr st)"

subsection \<open>Lines made of given tokens\<close>

text \<open>
  A token \<^verbatim>\<open>interpret\<close> can take in: not empty, shorter than the buffer \<^verbatim>\<open>word[WORD_SIZE]\<close>
  it is read into, with no white space and no NUL in it.
\<close>

definition is_token :: "string \<Rightarrow> bool" where
  "is_token t = (t \<noteq> [] \<and> length t < WORD_SIZE \<and> (\<forall>c\<in>set t. \<not> isspace c \<and> c \<noteq> CHR 0x00))"

text \<open>The line of the given tokens, one space between two of them.\<close>

fun spaced :: "string list \<Rightarrow> string" where
  "spaced [] = []"
| "spaced [t] = t"
| "spaced (t # u # ts) = t @ CHR '' '' # spaced (u # ts)"

text \<open>The address of the entry of the built-in \<^verbatim>\<open>:\<close>.\<close>

definition colon_entry :: ptr where
  "colon_entry = find_word forth0 '':''"

text \<open>
  The state after a definition \<^verbatim>\<open>: nm ... ;\<close> whose body was compiled to \<open>cells\<close>, in terms
  of the state before it: one more entry, at the address \<^verbatim>\<open>malloc\<close> gave, and the compiler
  back at rest.
\<close>

definition define_word :: "string \<Rightarrow> ptr list \<Rightarrow> state \<Rightarrow> state" where
  "define_word nm cells st =
     st\<lparr>dictionary :=
          (brk st, \<lparr>name = nm, is_immediate = 0, code = None, data = Some cells,
                    data_len = int (length cells)\<rparr>) # dictionary st,
        current_word := NULL, compiling := 0, compile_buffer := None, compile_pos := 0,
        compile_size := 0, input_ptr := [],
        brk := brk st + word_of_nat Word_block\<rparr>"

text \<open>
  The state after \<^verbatim>\<open>: nm\<close> was read outside a definition, with \<open>r\<close> the rest of the line: the
  new entry, without a body yet, and the compiler started.
\<close>

definition open_word :: "string \<Rightarrow> string \<Rightarrow> state \<Rightarrow> state" where
  "open_word nm r st =
     st\<lparr>dictionary :=
          (brk st, \<lparr>name = nm, is_immediate = 0, code = None, data = None, data_len = 0\<rparr>)
            # dictionary st,
        current_word := brk st, compiling := 1, compile_buffer := Some [], compile_pos := 0,
        compile_size := 64, input_ptr := r,
        brk := brk st + word_of_nat Word_block\<rparr>"

text \<open>
  From one state to a later one, the entries of the dictionary other than the one under
  definition are kept as they are, at their addresses, and none of them becomes the entry
  under definition.
\<close>

definition keeps :: "state \<Rightarrow> state \<Rightarrow> bool" where
  "keeps st st' =
     (\<forall>w wd. deref st w = Some wd \<longrightarrow> w \<noteq> current_word st \<longrightarrow>
        deref st' w = Some wd \<and> w \<noteq> current_word st')"

section \<open>The data stack\<close>

lemma push_ok:
  "0 \<le> sp st \<Longrightarrow> sp st < STACK_SIZE \<Longrightarrow>
   push v st = Inr (st\<lparr>stack := (stack st)(sp st := v), sp := sp st + 1\<rparr>)"
  by (simp add: push_def stack_write_def)

lemma push_overflow: "STACK_SIZE \<le> sp st \<Longrightarrow> push v st = Inl (Fatal StackOverflow)"
  by (simp add: push_def)

lemma pop_ok:
  "0 < sp st \<Longrightarrow> sp st \<le> STACK_SIZE \<Longrightarrow>
   pop st = Inr (stack st (sp st - 1), st\<lparr>sp := sp st - 1\<rparr>)"
  by (simp add: pop_def stack_read_def Let_def)

lemma pop_underflow: "sp st \<le> 0 \<Longrightarrow> pop st = Inl (Fatal StackUnderflow)"
  by (simp add: pop_def)

lemma data_stack_push:
  "0 \<le> sp st \<Longrightarrow> data_stack (st\<lparr>stack := (stack st)(sp st := v), sp := sp st + 1\<rparr>) = data_stack st @ [v]"
proof -
  assume sp: "0 \<le> sp st"
  then have "nat (sp st + 1) = Suc (nat (sp st))" by simp
  moreover have "\<And>x. x < nat (sp st) \<Longrightarrow> int x \<noteq> sp st" by auto
  ultimately show ?thesis using sp by (simp add: data_stack_def)
qed

lemma pushes_ok:
  "0 \<le> sp st \<Longrightarrow> sp st + int (length vs) \<le> STACK_SIZE \<Longrightarrow>
   \<exists>st'. pushes vs st = Inr st' \<and> sp st' = sp st + int (length vs) \<and>
         data_stack st' = data_stack st @ vs \<and>
         st' = st\<lparr>stack := stack st', sp := sp st'\<rparr>"
proof (induction vs arbitrary: st)
  case Nil
  then show ?case by simp
next
  case (Cons v vs)
  let ?st1 = "st\<lparr>stack := (stack st)(sp st := v), sp := sp st + 1\<rparr>"
  from Cons.prems have p: "push v st = Inr ?st1" by (simp add: push_ok)
  from Cons.prems have "0 \<le> sp ?st1" "sp ?st1 + int (length vs) \<le> STACK_SIZE" by simp_all
  from Cons.IH [OF this] obtain st' where st':
    "pushes vs ?st1 = Inr st'" "sp st' = sp ?st1 + int (length vs)"
    "data_stack st' = data_stack ?st1 @ vs" "st' = ?st1\<lparr>stack := stack st', sp := sp st'\<rparr>"
    by blast
  from st'(4) have "st' = st\<lparr>stack := stack st', sp := sp st'\<rparr>" by simp
  with st'(1,2,3) p Cons.prems show ?case by (simp add: data_stack_push)
qed

lemma data_stack_pop:
  "0 < sp st \<Longrightarrow> data_stack st = data_stack (st\<lparr>sp := sp st - 1\<rparr>) @ [stack st (sp st - 1)]"
proof -
  assume sp: "0 < sp st"
  then have "nat (sp st) = Suc (nat (sp st - 1))" by simp
  then show ?thesis using sp by (simp add: data_stack_def)
qed

lemma pops_ok:
  "int k \<le> sp st \<Longrightarrow> sp st \<le> STACK_SIZE \<Longrightarrow>
   pops k st = Inr (take k (rev (data_stack st)), st\<lparr>sp := sp st - int k\<rparr>)"
proof (induction k arbitrary: st)
  case 0
  then show ?case by simp
next
  case (Suc k)
  let ?st1 = "st\<lparr>sp := sp st - 1\<rparr>"
  from Suc.prems have p: "pop st = Inr (stack st (sp st - 1), ?st1)" by (simp add: pop_ok)
  from Suc.prems have "int k \<le> sp ?st1" "sp ?st1 \<le> STACK_SIZE" by simp_all
  from Suc.IH [OF this] have "pops k ?st1 = Inr (take k (rev (data_stack ?st1)), ?st1\<lparr>sp := sp ?st1 - int k\<rparr>)" .
  moreover from Suc.prems have "data_stack st = data_stack ?st1 @ [stack st (sp st - 1)]"
    by (intro data_stack_pop) simp
  ultimately show ?case using p by (simp add: algebra_simps)
qed

lemma pops_underflow:
  "0 \<le> sp st \<Longrightarrow> sp st < int k \<Longrightarrow> sp st \<le> STACK_SIZE \<Longrightarrow> pops k st = Inl (Fatal StackUnderflow)"
proof (induction k arbitrary: st)
  case 0
  then show ?case by simp
next
  case (Suc k)
  show ?case
  proof (cases "sp st = 0")
    case True
    then show ?thesis by (simp add: pop_underflow)
  next
    case False
    let ?st1 = "st\<lparr>sp := sp st - 1\<rparr>"
    from False Suc.prems have p: "pop st = Inr (stack st (sp st - 1), ?st1)" by (simp add: pop_ok)
    from False Suc.prems have "0 \<le> sp ?st1" "sp ?st1 < int k" "sp ?st1 \<le> STACK_SIZE" by simp_all
    from Suc.IH [OF this] p show ?thesis by simp
  qed
qed

text \<open>
  Claim C8. The LIFO law of the data stack: when the stack is not full, \<^verbatim>\<open>pop\<close> right after
  \<^verbatim>\<open>push(v)\<close> returns \<open>v\<close> and gives back the stack as it was (the same depth and
  contents; of the whole state only the array cell above the top has changed). After any
  run of pushes within the capacity onto an empty stack, as many pops return the values in
  reverse order, and every longer run of pops ends the program with \<open>StackUnderflow\<close>.
\<close>

theorem stack_lifo:
  "(0 \<le> sp st \<and> sp st < STACK_SIZE \<longrightarrow>
      (\<exists>st1 st2. push v st = Inr st1 \<and> pop st1 = Inr (v, st2) \<and>
         sp st2 = sp st \<and> data_stack st2 = data_stack st \<and>
         st2 = st\<lparr>stack := (stack st)(sp st := v)\<rparr>)) \<and>
   (sp st = 0 \<and> int (length vs) \<le> STACK_SIZE \<longrightarrow>
      (\<exists>st1. pushes vs st = Inr st1 \<and>
         (\<exists>st2. pops (length vs) st1 = Inr (rev vs, st2) \<and> pop st2 = Inl (Fatal StackUnderflow)) \<and>
         (\<forall>k. length vs < k \<longrightarrow> pops k st1 = Inl (Fatal StackUnderflow))))"
proof (intro conjI impI)
  assume a: "0 \<le> sp st \<and> sp st < STACK_SIZE"
  let ?st1 = "st\<lparr>stack := (stack st)(sp st := v), sp := sp st + 1\<rparr>"
  from a have 1: "push v st = Inr ?st1" by (simp add: push_ok)
  from a have 2: "pop ?st1 = Inr (v, st\<lparr>stack := (stack st)(sp st := v)\<rparr>)"
    by (simp add: pop_ok)
  have 3: "data_stack (st\<lparr>stack := (stack st)(sp st := v)\<rparr>) = data_stack st"
    by (auto simp: data_stack_def)
  from 1 2 3 show "\<exists>st1 st2. push v st = Inr st1 \<and> pop st1 = Inr (v, st2) \<and>
         sp st2 = sp st \<and> data_stack st2 = data_stack st \<and>
         st2 = st\<lparr>stack := (stack st)(sp st := v)\<rparr>"
    by simp
next
  assume b: "sp st = 0 \<and> int (length vs) \<le> STACK_SIZE"
  then have "0 \<le> sp st" "sp st + int (length vs) \<le> STACK_SIZE" by simp_all
  from pushes_ok [OF this] obtain st1 where st1:
    "pushes vs st = Inr st1" "sp st1 = sp st + int (length vs)" "data_stack st1 = data_stack st @ vs"
    by blast
  from b have e: "data_stack st = []" by (simp add: data_stack_def)
  from st1 b have sp1: "sp st1 = int (length vs)" "sp st1 \<le> STACK_SIZE" by simp_all
  then have "pops (length vs) st1 = Inr (take (length vs) (rev (data_stack st1)), st1\<lparr>sp := sp st1 - int (length vs)\<rparr>)"
    by (intro pops_ok) simp_all
  with st1 e sp1 have 4: "pops (length vs) st1 = Inr (rev vs, st1\<lparr>sp := 0\<rparr>)" by simp
  have 5: "pop (st1\<lparr>sp := 0\<rparr>) = Inl (Fatal StackUnderflow)" by (simp add: pop_underflow)
  have 6: "\<forall>k. length vs < k \<longrightarrow> pops k st1 = Inl (Fatal StackUnderflow)"
    using sp1 by (auto intro!: pops_underflow)
  from st1(1) 4 5 6 show "\<exists>st1. pushes vs st = Inr st1 \<and>
         (\<exists>st2. pops (length vs) st1 = Inr (rev vs, st2) \<and> pop st2 = Inl (Fatal StackUnderflow)) \<and>
         (\<forall>k. length vs < k \<longrightarrow> pops k st1 = Inl (Fatal StackUnderflow))"
    by blast
qed

theorem stack_lifo_witness:
  "(\<exists>st1 st2. push 7 startup = Inr st1 \<and> pop st1 = Inr (7, st2) \<and>
      sp st2 = sp startup \<and> data_stack st2 = data_stack startup \<and>
      st2 = startup\<lparr>stack := (stack startup)(sp startup := 7)\<rparr>) \<and>
   (\<exists>st1. pushes [1, 2, 3] startup = Inr st1 \<and>
      (\<exists>st2. pops (length [1, 2, 3 :: cint]) st1 = Inr (rev [1, 2, 3], st2) \<and>
         pop st2 = Inl (Fatal StackUnderflow)) \<and>
      (\<forall>k. length [1, 2, 3 :: cint] < k \<longrightarrow> pops k st1 = Inl (Fatal StackUnderflow)))"
proof -
  have h: "0 \<le> sp startup \<and> sp startup < STACK_SIZE"
    "sp startup = 0 \<and> int (length [1, 2, 3 :: cint]) \<le> STACK_SIZE"
    by (simp_all add: startup_def STACK_SIZE_def)
  from stack_lifo [of startup 7 "[1, 2, 3]"] h show ?thesis by blast
qed

lemma dots_loop_eq:
  "0 \<le> i \<Longrightarrow> i \<le> sp st \<Longrightarrow> sp st \<le> STACK_SIZE \<Longrightarrow>
   dots_loop i st =
     Inr (st\<lparr>out := out st @ concat (map (\<lambda>j. show_int (sint (stack st (int j))) @ '' '') [nat i..<nat (sp st)])\<rparr>)"
proof (induction "nat (sp st - i)" arbitrary: i st)
  case 0
  then have "i = sp st" by simp
  then show ?case by (simp add: dots_loop.simps)
next
  case (Suc k)
  then have lt: "i < sp st" by simp
  let ?st1 = "printf (show_int (sint (stack st i)) @ '' '') st"
  have sel: "sp ?st1 = sp st" "stack ?st1 = stack st"
    "out ?st1 = out st @ show_int (sint (stack st i)) @ '' ''"
    by (simp_all add: printf_def)
  from Suc.prems lt have rd: "stack_read st i = Inr (stack st i)" by (simp add: stack_read_def)
  from Suc.hyps(2) have "k = nat (sp ?st1 - (i + 1))" by (simp add: sel)
  moreover from Suc.prems lt have "0 \<le> i + 1" "i + 1 \<le> sp ?st1" "sp ?st1 \<le> STACK_SIZE"
    by (simp_all add: sel)
  ultimately have IH: "dots_loop (i + 1) ?st1 =
     Inr (?st1\<lparr>out := out ?st1 @ concat (map (\<lambda>j. show_int (sint (stack ?st1 (int j))) @ '' '') [nat (i + 1)..<nat (sp ?st1)])\<rparr>)"
    by (rule Suc.hyps(1))
  from Suc.prems lt have up: "[nat i..<nat (sp st)] = nat i # [nat (i + 1)..<nat (sp st)]"
    by (simp add: upt_conv_Cons nat_add_distrib)
  have "dots_loop i st = dots_loop (i + 1) ?st1"
    using lt rd by (subst dots_loop.simps) simp
  also note IH
  finally show ?case using Suc.prems by (simp add: sel up printf_def)
qed

text \<open>
  Claim C9. For every state of the data stack, the empty one included, \<^verbatim>\<open>.S\<close> writes the
  depth as \<^verbatim>\<open><sp=N>\<close>, then the cells of the stack from the bottom to the top, each followed
  by a space, then a newline; of the state only the output changes, so the depth and the
  contents of the stack are as before.
\<close>

theorem dots_prints_and_keeps:
  "sp st \<le> STACK_SIZE \<Longrightarrow>
   dots st = Inr (st\<lparr>out := out st @ ''<sp='' @ show_int (sp st) @ ''> '' @
                     concat (map (\<lambda>v. show_int (sint v) @ '' '') (data_stack st)) @ [CHR 0x0A]\<rparr>)"
proof (cases "0 \<le> sp st")
  case True
  assume le: "sp st \<le> STACK_SIZE"
  let ?st0 = "printf (''<sp='' @ show_int (sp st) @ ''> '') st"
  have "dots_loop 0 ?st0 =
     Inr (?st0\<lparr>out := out ?st0 @ concat (map (\<lambda>j. show_int (sint (stack ?st0 (int j))) @ '' '') [nat 0..<nat (sp ?st0)])\<rparr>)"
    using True le by (intro dots_loop_eq) (simp_all add: printf_def)
  then show ?thesis
    by (simp add: dots_def printf_def data_stack_def comp_def)
next
  case False
  then have "dots_loop 0 (printf (''<sp='' @ show_int (sp st) @ ''> '') st) = Inr (printf (''<sp='' @ show_int (sp st) @ ''> '') st)"
    by (subst dots_loop.simps) (simp add: printf_def)
  with False show ?thesis
    by (simp add: dots_def printf_def data_stack_def)
qed

theorem dots_prints_and_keeps_witness:
  "sp (startup\<lparr>stack := (stack startup)(0 := 5, 1 := - 3), sp := 2\<rparr>) \<le> STACK_SIZE \<and>
   dots (startup\<lparr>stack := (stack startup)(0 := 5, 1 := - 3), sp := 2\<rparr>) =
     Inr (startup\<lparr>stack := (stack startup)(0 := 5, 1 := - 3), sp := 2,
            out := ''<sp=2> 5 -3 '' @ [CHR 0x0A]\<rparr>)"
proof -
  have h: "sp (startup\<lparr>stack := (stack startup)(0 := 5, 1 := - 3), sp := 2\<rparr>) \<le> STACK_SIZE"
    by (simp add: STACK_SIZE_def)
  have d: "data_stack (startup\<lparr>stack := (stack startup)(0 := 5, 1 := - 3), sp := 2\<rparr>) = [5, - 3]"
    by (simp add: data_stack_def upt_rec)
  have o: "out startup = []" by (simp add: startup_def)
  from dots_prints_and_keeps [OF h] h show ?thesis
    by (simp add: d o show_int_def show_nat.simps digit_char_def)
qed

section \<open>Running the interpreter on given lines\<close>

text \<open>
  The definitions that the simplifier unfolds to run the interpreter on a given line, and
  the bounds written with \<open>Suc\<close>, so that a result holds for every bound from some number on.
\<close>

lemmas forth_eval =
  interpret_line_def interpret_round_def c_str_def startup_def forth0_def init_forth_def builtins_def add_word_def
  malloc_Word_def Word_block_def heap_base_def NULL_def WORD_SIZE_def STACK_SIZE_def
  sscanf_s_def isspace_def isdigit_def tolower_def strtol_def LONG_MAX_def LONG_MIN_def
  find_word_def deref_def run_prim_def printf_def
  push_def pop_def stack_write_def stack_read_def
  colon_def semicolon_def start_compile_def end_compile_def compile_item_def
  tag_number_def is_number_cell_def decode_number_def data_stack_def

lemma fuel2: "2 + n = Suc (Suc n)"
  by simp

lemma fuel9: "9 + n = Suc (Suc (Suc (Suc (Suc (Suc (Suc (Suc (Suc n))))))))"
  by simp

lemma fuel4: "4 + n = Suc (Suc (Suc (Suc n)))"
  by simp

section \<open>Primitives that miss a check\<close>

text \<open>
  Claim C3. \<^verbatim>\<open>DUP\<close> on an empty data stack should end with \<open>StackUnderflow\<close>, reported by
  the stack layer. The code of \<^verbatim>\<open>dup\<close> reads \<^verbatim>\<open>stack[sp-1]\<close> itself: with depth 0 this is
  the cell \<^verbatim>\<open>stack[-1]\<close> outside the array, and no underflow is reported. \<^verbatim>\<open>DROP\<close>, which
  goes through \<^verbatim>\<open>pop\<close>, does report it.
\<close>

theorem dup_on_empty_stack:
  "dup (st\<lparr>sp := 0\<rparr>) = Inl (Undefined ArrayOutOfBounds) \<and>
   drop_w (st\<lparr>sp := 0\<rparr>) = Inl (Fatal StackUnderflow) \<and>
   interpret_line (2 + n) ''DUP'' forth0 = Inl (Undefined ArrayOutOfBounds) \<and>
   interpret_line (2 + n) ''DROP'' forth0 = Inl (Fatal StackUnderflow)"
  by (simp add: fuel2 forth_eval dup_def drop_w_def)

text \<open>
  Claim C5. \<^verbatim>\<open>/\<close> and \<^verbatim>\<open>MOD\<close> with a zero divisor should be detected and end in a reported
  or fatal \<open>DivideByZero\<close>. The code pops both operands and divides with no check of the
  divisor: the division by zero is the native one, undefined in C, and nothing is reported.
\<close>

theorem division_by_zero_unchecked:
  "c_div a 0 = Inl (Undefined DivisionByZero) \<and> c_mod a 0 = Inl (Undefined DivisionByZero) \<and>
   interpret_line (4 + n) ''1 0 /'' forth0 = Inl (Undefined DivisionByZero) \<and>
   interpret_line (4 + n) ''1 0 MOD'' forth0 = Inl (Undefined DivisionByZero)"
  by (simp add: fuel4 forth_eval divide_def mod_w_def c_div_def c_mod_def)

section \<open>One round of the interpreter loop\<close>

text \<open>
  The token \<^verbatim>\<open>sscanf\<close> reads starts at the first character that is not white space, so
  \<^verbatim>\<open>strstr\<close> finds it there and the cursor moves to the end of this token.
\<close>

lemma sscanf_s_SomeD:
  assumes "sscanf_s s = Some tok"
  shows "tok \<noteq> []" and "\<forall>c\<in>set tok. \<not> isspace c"
    and "tok = takeWhile (\<lambda>c. \<not> isspace c) (dropWhile isspace s)"
proof -
  from assms show 3: "tok = takeWhile (\<lambda>c. \<not> isspace c) (dropWhile isspace s)"
    and "tok \<noteq> []"
    unfolding sscanf_s_def Let_def by (simp_all split: if_splits)
  show "\<forall>c\<in>set tok. \<not> isspace c"
  proof
    fix c assume "c \<in> set tok"
    with 3 have "c \<in> set (takeWhile (\<lambda>c. \<not> isspace c) (dropWhile isspace s))" by simp
    then show "\<not> isspace c" by (rule set_takeWhileD [THEN conjunct2])
  qed
qed

lemma strstr_at_token:
  "tok \<noteq> [] \<Longrightarrow> \<not> isspace (hd tok) \<Longrightarrow> tok = takeWhile (\<lambda>c. \<not> isspace c) (dropWhile isspace s) \<Longrightarrow>
   strstr s tok = Some (dropWhile isspace s)"
proof (induction s)
  case Nil
  then show ?case by simp
next
  case (Cons c cs)
  show ?case
  proof (cases "isspace c")
    case True
    from Cons.prems(1) obtain t ts where tok: "tok = t # ts" by (cases tok) simp_all
    with Cons.prems(2) True have "t \<noteq> c" by auto
    with tok have ne: "take (length tok) (c # cs) \<noteq> tok" by simp
    from True Cons.prems(3) have "tok = takeWhile (\<lambda>c. \<not> isspace c) (dropWhile isspace cs)" by simp
    with Cons.IH Cons.prems(1,2) have "strstr cs tok = Some (dropWhile isspace cs)" by blast
    with ne True show ?thesis by (simp del: take_Suc_Cons)
  next
    case False
    with Cons.prems(3) have t: "tok = takeWhile (\<lambda>c. \<not> isspace c) (c # cs)" by simp
    have "take (length (takeWhile (\<lambda>c. \<not> isspace c) (c # cs))) (c # cs) = takeWhile (\<lambda>c. \<not> isspace c) (c # cs)"
      by (rule takeWhile_eq_take [symmetric])
    with t have "take (length tok) (c # cs) = tok" by simp
    with False show ?thesis by (simp del: take_Suc_Cons)
  qed
qed

lemma strstr_token:
  assumes "sscanf_s s = Some tok"
  shows "strstr s tok = Some (dropWhile isspace s)"
proof -
  note d = sscanf_s_SomeD [OF assms]
  from d(1) have "hd tok \<in> set tok" by (rule hd_in_set)
  with d(2) have "\<not> isspace (hd tok)" by blast
  with d(1) show ?thesis using d(3) by (rule strstr_at_token)
qed

lemma find_word_consume [simp]: "find_word (consume tok st) nm = find_word st nm"
  by (simp add: find_word_def consume_def)

lemma deref_consume [simp]: "deref (consume tok st) w = deref st w"
  by (simp add: deref_def consume_def)

lemma compiling_consume [simp]: "compiling (consume tok st) = compiling st"
  by (simp add: consume_def)

lemma round_prelude:
  assumes "sscanf_s (input_ptr st) = Some tok"
  shows "strstr (input_ptr st) tok = Some (dropWhile isspace (input_ptr st))"
    and "st\<lparr>input_ptr := drop (length tok) (dropWhile isspace (input_ptr st))\<rparr> = consume tok st"
proof -
  from assms show "strstr (input_ptr st) tok = Some (dropWhile isspace (input_ptr st))"
    by (rule strstr_token)
  show "st\<lparr>input_ptr := drop (length tok) (dropWhile isspace (input_ptr st))\<rparr> = consume tok st"
    by (simp add: consume_def)
qed

text \<open>What a round does, by the kind of token it reads.\<close>

lemma round_end: "sscanf_s (input_ptr st) = None \<Longrightarrow> interpret_round n st = Return st"
  by (simp add: interpret_round_def)

lemma round_too_long:
  "sscanf_s (input_ptr st) = Some tok \<Longrightarrow> WORD_SIZE \<le> length tok \<Longrightarrow>
   interpret_round n st = Abort (Undefined BufferOverrun)"
  by (simp add: interpret_round_def)

lemma round_number_compiling:
  assumes "sscanf_s (input_ptr st) = Some tok" "length tok < WORD_SIZE"
    "strtol tok = (num, [])" "compiling st \<noteq> 0"
  shows "interpret_round n st =
     (case compile_item (tag_number num) (consume tok st) of Inl e \<Rightarrow> Abort e | Inr st2 \<Rightarrow> Continue st2)"
  using assms by (simp add: interpret_round_def round_prelude Let_def split del: if_split)

lemma round_number_interactive:
  assumes "sscanf_s (input_ptr st) = Some tok" "length tok < WORD_SIZE"
    "strtol tok = (num, [])" "compiling st = 0"
  shows "interpret_round n st =
     (case push (ucast num) (consume tok st) of Inl e \<Rightarrow> Abort e | Inr st2 \<Rightarrow> Continue st2)"
  using assms by (simp add: interpret_round_def round_prelude Let_def split del: if_split)

lemma not_number_strtol: "\<not> is_number tok \<Longrightarrow> \<exists>num e. strtol tok = (num, e) \<and> e \<noteq> []"
  by (cases "strtol tok") (simp add: is_number_def)

lemma compiling_printf [simp]: "compiling (printf s st) = compiling st"
  by (simp add: printf_def)

lemma round_word_compile:
  assumes "sscanf_s (input_ptr st) = Some tok" "length tok < WORD_SIZE"
    "\<not> is_number tok" "find_word st tok \<noteq> NULL" "deref st (find_word st tok) = Some wd"
    "compiling st \<noteq> 0" "is_immediate wd = 0"
  shows "interpret_round n st =
     (case compile_item (find_word st tok) (consume tok st) of Inl e \<Rightarrow> Abort e | Inr st2 \<Rightarrow> Continue st2)"
proof -
  from assms(3) obtain num e where "strtol tok = (num, e)" "e \<noteq> []"
    using not_number_strtol by blast
  with assms show ?thesis
    by (simp add: interpret_round_def round_prelude Let_def split del: if_split)
qed

lemma round_word_execute:
  assumes "sscanf_s (input_ptr st) = Some tok" "length tok < WORD_SIZE"
    "\<not> is_number tok" "find_word st tok \<noteq> NULL" "deref st (find_word st tok) = Some wd"
    "compiling st = 0 \<or> is_immediate wd \<noteq> 0"
  shows "interpret_round n st =
     (case execute_word n (find_word st tok) (consume tok st) of Inl e \<Rightarrow> Abort e | Inr st2 \<Rightarrow> Continue st2)"
proof -
  from assms(3) obtain num e where "strtol tok = (num, e)" "e \<noteq> []"
    using not_number_strtol by blast
  with assms(1-5) have "interpret_round n st =
     (if compiling st \<noteq> 0 \<and> is_immediate wd = 0
      then (case compile_item (find_word st tok) (consume tok st) of Inl e \<Rightarrow> Abort e | Inr st2 \<Rightarrow> Continue st2)
      else (case execute_word n (find_word st tok) (consume tok st) of Inl e \<Rightarrow> Abort e | Inr st2 \<Rightarrow> Continue st2))"
    by (simp add: interpret_round_def round_prelude Let_def cong: if_cong)
  also from assms(6) have "\<not> (compiling st \<noteq> 0 \<and> is_immediate wd = 0)" by blast
  then have "(if compiling st \<noteq> 0 \<and> is_immediate wd = 0
      then (case compile_item (find_word st tok) (consume tok st) of Inl e \<Rightarrow> Abort e | Inr st2 \<Rightarrow> Continue st2)
      else (case execute_word n (find_word st tok) (consume tok st) of Inl e \<Rightarrow> Abort e | Inr st2 \<Rightarrow> Continue st2)) =
      (case execute_word n (find_word st tok) (consume tok st) of Inl e \<Rightarrow> Abort e | Inr st2 \<Rightarrow> Continue st2)"
    by (simp only: if_False)
  finally show ?thesis .
qed

lemma round_unknown:
  assumes "sscanf_s (input_ptr st) = Some tok" "length tok < WORD_SIZE"
    "\<not> is_number tok" "find_word st tok = NULL"
  shows "interpret_round n st =
     Return (if compiling st \<noteq> 0
             then end_compile (printf (''Unknown word: '' @ tok @ [CHR 0x0A]) (consume tok st))
             else printf (''Unknown word: '' @ tok @ [CHR 0x0A]) (consume tok st))"
proof -
  from assms(3) obtain num e where "strtol tok = (num, e)" "e \<noteq> []"
    using not_number_strtol by blast
  with assms show ?thesis
    by (cases "compiling st = 0")
       (simp_all add: interpret_round_def round_prelude Let_def split del: if_split)
qed

section \<open>An unresolved token\<close>

lemma map_of_store_from:
  "map_of (store_from d w f) a = (if a = w then map_option f (map_of d a) else map_of d a)"
  by (induction d) auto

lemma deref_end_compile:
  "current_word st \<noteq> NULL \<Longrightarrow>
   deref (end_compile st) w =
     (if w = current_word st
      then map_option (\<lambda>wd. wd\<lparr>data := compile_buffer st, data_len := compile_pos st\<rparr>) (deref st w)
      else deref st w)"
  by (simp add: end_compile_def deref_def Let_def map_of_store_from)

lemma end_compile_sel [simp]:
  "stack (end_compile st) = stack st" "sp (end_compile st) = sp st"
  "out (end_compile st) = out st" "input_ptr (end_compile st) = input_ptr st"
  "compiling (end_compile st) = 0" "compile_buffer (end_compile st) = None"
  "current_word (end_compile st) = NULL" "brk (end_compile st) = brk st"
  by (simp_all add: end_compile_def Let_def)

lemma printf_sel [simp]:
  "stack (printf s st) = stack st" "sp (printf s st) = sp st"
  "out (printf s st) = out st @ s" "input_ptr (printf s st) = input_ptr st"
  "dictionary (printf s st) = dictionary st" "compile_buffer (printf s st) = compile_buffer st"
  "compile_pos (printf s st) = compile_pos st" "current_word (printf s st) = current_word st"
  "brk (printf s st) = brk st"
  by (simp_all add: printf_def)

lemma consume_sel [simp]:
  "stack (consume t st) = stack st" "sp (consume t st) = sp st"
  "out (consume t st) = out st"
  "dictionary (consume t st) = dictionary st" "compile_buffer (consume t st) = compile_buffer st"
  "compile_pos (consume t st) = compile_pos st" "current_word (consume t st) = current_word st"
  "brk (consume t st) = brk st"
  by (simp_all add: consume_def)

lemma deref_printf [simp]: "deref (printf s st) w = deref st w"
  by (simp add: deref_def)

lemma data_stack_cong: "stack st' = stack st \<Longrightarrow> sp st' = sp st \<Longrightarrow> data_stack st' = data_stack st"
  by (simp add: data_stack_def)

lemma interpret_line_forgets_cursor:
  "interpret_line m l (consume t st) = interpret_line m l st"
  "interpret_line m l (end_compile (printf s (consume t st))) = interpret_line m l (end_compile (printf s st))"
  "interpret_line m l (printf s (consume t st)) = interpret_line m l (printf s st)"
  by (simp_all add: interpret_line_def consume_def end_compile_def printf_def Let_def)

section \<open>The dictionary after start-up\<close>

lemma dictionary_forth0:
  "dictionary forth0 =
     [
      (5776, \<lparr>name = '';'', is_immediate = 1, code = Some Semicolon, data = None, data_len = 0\<rparr>),
      (5696, \<lparr>name = '':'', is_immediate = 0, code = Some Colon, data = None, data_len = 0\<rparr>),
      (5616, \<lparr>name = ''NOT'', is_immediate = 0, code = Some Not, data = None, data_len = 0\<rparr>),
      (5536, \<lparr>name = ''OR'', is_immediate = 0, code = Some Or, data = None, data_len = 0\<rparr>),
      (5456, \<lparr>name = ''AND'', is_immediate = 0, code = Some And, data = None, data_len = 0\<rparr>),
      (5376, \<lparr>name = ''>'', is_immediate = 0, code = Some Gt, data = None, data_len = 0\<rparr>),
      (5296, \<lparr>name = ''<'', is_immediate = 0, code = Some Lt, data = None, data_len = 0\<rparr>),
      (5216, \<lparr>name = ''='', is_immediate = 0, code = Some Eq, data = None, data_len = 0\<rparr>),
      (5136, \<lparr>name = ''.S'', is_immediate = 0, code = Some Dots, data = None, data_len = 0\<rparr>),
      (5056, \<lparr>name = ''.'', is_immediate = 0, code = Some Dot, data = None, data_len = 0\<rparr>),
      (4976, \<lparr>name = ''CR'', is_immediate = 0, code = Some Cr, data = None, data_len = 0\<rparr>),
      (4896, \<lparr>name = ''EMIT'', is_immediate = 0, code = Some Emit, data = None, data_len = 0\<rparr>),
      (4816, \<lparr>name = ''ROT'', is_immediate = 0, code = Some Rot, data = None, data_len = 0\<rparr>),
      (4736, \<lparr>name = ''OVER'', is_immediate = 0, code = Some Over, data = None, data_len = 0\<rparr>),
      (4656, \<lparr>name = ''SWAP'', is_immediate = 0, code = Some Swap, data = None, data_len = 0\<rparr>),
      (4576, \<lparr>name = ''DROP'', is_immediate = 0, code = Some Drop, data = None, data_len = 0\<rparr>),
      (4496, \<lparr>name = ''DUP'', is_immediate = 0, code = Some Dup, data = None, data_len = 0\<rparr>),
      (4416, \<lparr>name = ''MOD'', is_immediate = 0, code = Some Mod, data = None, data_len = 0\<rparr>),
      (4336, \<lparr>name = ''/'', is_immediate = 0, code = Some Divide, data = None, data_len = 0\<rparr>),
      (4256, \<lparr>name = ''*'', is_immediate = 0, code = Some Mul, data = None, data_len = 0\<rparr>),
      (4176, \<lparr>name = ''-'', is_immediate = 0, code = Some Sub, data = None, data_len = 0\<rparr>),
      (4096, \<lparr>name = ''+'', is_immediate = 0, code = Some Add, data = None, data_len = 0\<rparr>)]"
  by (simp add: forth_eval)

lemma forth0_fields:
  "brk forth0 = 5856" "current_word forth0 = NULL" "compiling forth0 = 0"
  "compile_buffer forth0 = None" "sp forth0 = 0" "out forth0 = []"
  by (simp_all add: forth_eval)

lemma init_forth_startup: "init_forth startup = Inr forth0"
  by (simp add: forth_eval)

lemma semicolon_entry_eq: "semicolon_entry = 5776"
  by (simp add: semicolon_entry_def find_word_def dictionary_forth0 tolower_def)

lemma builtin_addresses:
  "(a, wd) \<in> set (dictionary forth0) \<Longrightarrow> a \<noteq> NULL \<and> a < brk forth0"
  by (auto simp: dictionary_forth0 forth0_fields NULL_def)

lemma builtin_immediate:
  "(a, wd) \<in> set (dictionary forth0) \<Longrightarrow> is_immediate wd \<noteq> 0 \<Longrightarrow>
   a = semicolon_entry \<and> code wd = Some Semicolon"
  by (auto simp: dictionary_forth0 semicolon_entry_eq)

lemma builtin_semicolon:
  "map_of (dictionary forth0) semicolon_entry =
     Some \<lparr>name = '';'', is_immediate = 1, code = Some Semicolon, data = None, data_len = 0\<rparr>"
  by (simp add: dictionary_forth0 semicolon_entry_eq)

lemma builtin_colon:
  "find_word_from (dictionary forth0) '':'' = 5696"
  "map_of (dictionary forth0) 5696 =
     Some \<lparr>name = '':'', is_immediate = 0, code = Some Colon, data = None, data_len = 0\<rparr>"
  by (simp_all add: dictionary_forth0 tolower_def)

section \<open>Words that work on the stack leave the compiler alone\<close>

lemma push_frame: "push v st = Inr st' \<Longrightarrow> compiler_state st' = compiler_state st"
  by (auto simp: push_def stack_write_def compiler_state_def split: if_splits)

lemma pop_frame: "pop st = Inr (v, st') \<Longrightarrow> compiler_state st' = compiler_state st"
  by (auto simp: pop_def stack_read_def compiler_state_def Let_def split: if_splits)

lemma printf_frame [simp]: "compiler_state (printf s st) = compiler_state st"
  by (simp add: compiler_state_def printf_def)

lemma dots_loop_frame: "dots_loop i st = Inr st' \<Longrightarrow> compiler_state st' = compiler_state st"
proof (induction i st rule: dots_loop.induct)
  case (1 i st)
  show ?case
  proof (cases "i < sp st")
    case True
    with "1.prems" obtain v where v: "stack_read st i = Inr v"
      and r: "dots_loop (i + 1) (printf (show_int (sint v) @ '' '') st) = Inr st'"
      by (subst (asm) dots_loop.simps) (simp split: sum.splits)
    from "1.IH" [OF True v r] show ?thesis by simp
  next
    case False
    with "1.prems" have "st' = st" by (subst (asm) dots_loop.simps) simp
    then show ?thesis by simp
  qed
qed

lemma binary_frame:
  assumes "(case pop st of Inl e \<Rightarrow> Inl e | Inr (b, st1) \<Rightarrow>
             (case pop st1 of Inl e \<Rightarrow> Inl e | Inr (a, st2) \<Rightarrow> push (f a b) st2)) = Inr st'"
  shows "compiler_state st' = compiler_state st"
proof -
  from assms obtain b st1 where 1: "pop st = Inr (b, st1)"
    by (cases "pop st") auto
  with assms obtain a st2 where 2: "pop st1 = Inr (a, st2)"
    by (cases "pop st1") auto
  with 1 assms have 3: "push (f a b) st2 = Inr st'" by simp
  from pop_frame [OF 1] pop_frame [OF 2] push_frame [OF 3] show ?thesis by simp
qed

lemma add_frame: "add st = Inr st' \<Longrightarrow> compiler_state st' = compiler_state st"
  unfolding add_def by (rule binary_frame)

lemma sub_frame: "sub st = Inr st' \<Longrightarrow> compiler_state st' = compiler_state st"
  unfolding sub_def by (rule binary_frame)

lemma mul_frame: "mul st = Inr st' \<Longrightarrow> compiler_state st' = compiler_state st"
  unfolding mul_def by (rule binary_frame)

lemma eq_frame: "eq_w st = Inr st' \<Longrightarrow> compiler_state st' = compiler_state st"
  unfolding eq_w_def by (rule binary_frame [where f = "\<lambda>a b. if a = b then - 1 else 0"])

lemma lt_frame: "lt st = Inr st' \<Longrightarrow> compiler_state st' = compiler_state st"
  unfolding lt_def by (rule binary_frame [where f = "\<lambda>a b. if sint a < sint b then - 1 else 0"])

lemma gt_frame: "gt st = Inr st' \<Longrightarrow> compiler_state st' = compiler_state st"
  unfolding gt_def by (rule binary_frame [where f = "\<lambda>a b. if sint a > sint b then - 1 else 0"])

lemma and_frame: "and_w st = Inr st' \<Longrightarrow> compiler_state st' = compiler_state st"
  unfolding and_w_def by (rule binary_frame)

lemma or_frame: "or_w st = Inr st' \<Longrightarrow> compiler_state st' = compiler_state st"
  unfolding or_w_def by (rule binary_frame)

lemma divide_frame:
  assumes "divide st = Inr st'"
  shows "compiler_state st' = compiler_state st"
proof -
  from assms obtain b st1 where 1: "pop st = Inr (b, st1)"
    unfolding divide_def by (cases "pop st") auto
  with assms obtain a st2 where 2: "pop st1 = Inr (a, st2)"
    unfolding divide_def by (cases "pop st1") auto
  with 1 assms obtain q where 3: "push q st2 = Inr st'"
    unfolding divide_def by (cases "c_div a b") auto
  from pop_frame [OF 1] pop_frame [OF 2] push_frame [OF 3] show ?thesis by simp
qed

lemma mod_frame:
  assumes "mod_w st = Inr st'"
  shows "compiler_state st' = compiler_state st"
proof -
  from assms obtain b st1 where 1: "pop st = Inr (b, st1)"
    unfolding mod_w_def by (cases "pop st") auto
  with assms obtain a st2 where 2: "pop st1 = Inr (a, st2)"
    unfolding mod_w_def by (cases "pop st1") auto
  with 1 assms obtain q where 3: "push q st2 = Inr st'"
    unfolding mod_w_def by (cases "c_mod a b") auto
  from pop_frame [OF 1] pop_frame [OF 2] push_frame [OF 3] show ?thesis by simp
qed

lemma dup_frame: "dup st = Inr st' \<Longrightarrow> compiler_state st' = compiler_state st"
  unfolding dup_def by (cases "stack_read st (sp st - 1)") (auto dest: push_frame)

lemma drop_frame: "drop_w st = Inr st' \<Longrightarrow> compiler_state st' = compiler_state st"
  unfolding drop_w_def by (cases "pop st") (auto dest: pop_frame)

lemma not_frame:
  assumes "not_w st = Inr st'"
  shows "compiler_state st' = compiler_state st"
proof -
  from assms obtain a st1 where 1: "pop st = Inr (a, st1)"
    unfolding not_w_def by (cases "pop st") auto
  with assms have 2: "push (NOT a) st1 = Inr st'" unfolding not_w_def by simp
  from pop_frame [OF 1] push_frame [OF 2] show ?thesis by simp
qed

lemma emit_frame: "emit st = Inr st' \<Longrightarrow> compiler_state st' = compiler_state st"
  unfolding emit_def by (cases "pop st") (auto dest: pop_frame)

lemma dot_frame: "dot st = Inr st' \<Longrightarrow> compiler_state st' = compiler_state st"
  unfolding dot_def by (cases "pop st") (auto dest: pop_frame)

lemma cr_frame: "cr st = Inr st' \<Longrightarrow> compiler_state st' = compiler_state st"
  unfolding cr_def by auto

lemma dots_frame:
  assumes "dots st = Inr st'"
  shows "compiler_state st' = compiler_state st"
proof -
  from assms obtain st1 where 1: "dots_loop 0 (printf (''<sp='' @ show_int (sp st) @ ''> '') st) = Inr st1"
    and 2: "st' = printf [CHR 0x0A] st1"
    unfolding dots_def by (cases "dots_loop 0 (printf (''<sp='' @ show_int (sp st) @ ''> '') st)") auto
  from dots_loop_frame [OF 1] 2 show ?thesis by simp
qed

lemma swap_frame:
  assumes "swap_w st = Inr st'"
  shows "compiler_state st' = compiler_state st"
proof -
  from assms obtain a st1 where 1: "pop st = Inr (a, st1)"
    unfolding swap_w_def by (cases "pop st") auto
  with assms obtain b st2 where 2: "pop st1 = Inr (b, st2)"
    unfolding swap_w_def by (cases "pop st1") auto
  with 1 assms obtain st3 where 3: "push a st2 = Inr st3"
    unfolding swap_w_def by (cases "push a st2") auto
  with 1 2 assms have 4: "push b st3 = Inr st'" unfolding swap_w_def by simp
  from pop_frame [OF 1] pop_frame [OF 2] push_frame [OF 3] push_frame [OF 4] show ?thesis by simp
qed

lemma over_frame:
  assumes "over st = Inr st'"
  shows "compiler_state st' = compiler_state st"
proof -
  from assms obtain a st1 where 1: "pop st = Inr (a, st1)"
    unfolding over_def by (cases "pop st") auto
  with assms obtain b st2 where 2: "pop st1 = Inr (b, st2)"
    unfolding over_def by (cases "pop st1") auto
  with 1 assms obtain st3 where 3: "push b st2 = Inr st3"
    unfolding over_def by (cases "push b st2") auto
  with 1 2 assms obtain st4 where 4: "push a st3 = Inr st4"
    unfolding over_def by (cases "push a st3") auto
  with 1 2 3 assms have 5: "push b st4 = Inr st'" unfolding over_def by simp
  from pop_frame [OF 1] pop_frame [OF 2] push_frame [OF 3] push_frame [OF 4] push_frame [OF 5]
  show ?thesis by simp
qed

lemma rot_frame:
  assumes "rot st = Inr st'"
  shows "compiler_state st' = compiler_state st"
proof -
  from assms obtain c st1 where 1: "pop st = Inr (c, st1)"
    unfolding rot_def by (cases "pop st") auto
  with assms obtain b st2 where 2: "pop st1 = Inr (b, st2)"
    unfolding rot_def by (cases "pop st1") auto
  with 1 assms obtain a st3 where 3: "pop st2 = Inr (a, st3)"
    unfolding rot_def by (cases "pop st2") auto
  with 1 2 assms obtain st4 where 4: "push b st3 = Inr st4"
    unfolding rot_def by (cases "push b st3") auto
  with 1 2 3 assms obtain st5 where 5: "push c st4 = Inr st5"
    unfolding rot_def by (cases "push c st4") auto
  with 1 2 3 4 assms have 6: "push a st5 = Inr st'" unfolding rot_def by simp
  from pop_frame [OF 1] pop_frame [OF 2] pop_frame [OF 3]
    push_frame [OF 4] push_frame [OF 5] push_frame [OF 6]
  show ?thesis by simp
qed

lemma run_prim_frame:
  assumes "run_prim p st = Inr st'" "p \<noteq> Colon" "p \<noteq> Semicolon"
  shows "compiler_state st' = compiler_state st"
  using assms
  by (cases p)
     (simp_all add: run_prim_def add_frame sub_frame mul_frame divide_frame mod_frame dup_frame
        drop_frame swap_frame over_frame rot_frame emit_frame cr_frame dot_frame dots_frame
        eq_frame lt_frame gt_frame and_frame or_frame not_frame)

section \<open>What holds of the dictionary in every state\<close>

lemma wf_forth0: "wf forth0"
  unfolding wf_def by (rule exI [of _ "[]"]) (simp add: forth0_fields is_number_cell_def)

lemma wf_frame_eq:
  assumes "compiler_state st' = compiler_state st"
  shows "wf st' = wf st"
proof -
  from assms have "dictionary st' = dictionary st" "current_word st' = current_word st"
    "compiling st' = compiling st" "compile_buffer st' = compile_buffer st"
    "compile_pos st' = compile_pos st" "brk st' = brk st"
    by (simp_all add: compiler_state_def)
  then show ?thesis by (simp add: wf_def)
qed

lemma wf_frame: "compiler_state st' = compiler_state st \<Longrightarrow> wf st \<Longrightarrow> wf st'"
  using wf_frame_eq by blast

lemma wf_cursor: "wf (st\<lparr>input_ptr := s\<rparr>) = wf st"
  by (simp add: wf_def)

lemma wf_consume: "wf (consume tok st) = wf st"
  by (simp add: consume_def wf_cursor)

lemma wf_printf: "wf (printf s st) = wf st"
  by (simp add: wf_def printf_def)

lemma malloc_Word_SomeD:
  assumes "malloc_Word st = Some (w, st')"
  shows "w = brk st" and "st' = st\<lparr>brk := brk st + word_of_nat Word_block\<rparr>" and "brk st < brk st'"
proof -
  from assms have lt: "unat (brk st) + Word_block < 2 ^ 64"
    and w: "w = brk st" and st': "st' = st\<lparr>brk := brk st + word_of_nat Word_block\<rparr>"
    by (auto simp: malloc_Word_def split: if_splits)
  show "w = brk st" by (rule w)
  show "st' = st\<lparr>brk := brk st + word_of_nat Word_block\<rparr>" by (rule st')
  have u: "unat (word_of_nat Word_block :: 64 word) = 80"
    by (simp add: Word_block_def)
  from lt have "unat (brk st) + 80 < 2 ^ 64" by (simp add: Word_block_def)
  then have "unat (brk st + word_of_nat Word_block) = unat (brk st) + 80"
    by (simp add: unat_word_ariths u)
  then have "unat (brk st) < unat (brk st + word_of_nat Word_block)" by simp
  then have "brk st < brk st + word_of_nat Word_block" by (simp add: word_less_nat_alt)
  then show "brk st < brk st'" by (simp add: st')
qed

lemma is_number_cell_odd: "is_number_cell v = odd v"
  by (simp add: is_number_cell_def and_one_eq mod_2_eq_odd)

lemma malloc_Word_even:
  "\<not> is_number_cell (brk st) \<Longrightarrow> \<not> is_number_cell (brk st + word_of_nat Word_block)"
  by (simp add: is_number_cell_odd Word_block_def)

lemma store_from_append:
  "w \<in> fst ` set us \<Longrightarrow> store_from (us @ d) w f = store_from us w f @ d"
proof (induction us)
  case Nil
  then show ?case by simp
next
  case (Cons e us)
  obtain a wd where e: "e = (a, wd)" by (cases e)
  show ?case
  proof (cases "a = w")
    case True
    with e show ?thesis by simp
  next
    case False
    with Cons.prems e have "w \<in> fst ` set us" by auto
    with Cons.IH False e show ?thesis by simp
  qed
qed

lemma store_from_set:
  "(a, wd') \<in> set (store_from us w f) \<Longrightarrow>
   (a, wd') \<in> set us \<or> (\<exists>wd. (a, wd) \<in> set us \<and> wd' = f wd)"
proof (induction us)
  case Nil
  then show ?case by simp
next
  case (Cons e us)
  obtain b wd where e: "e = (b, wd)" by (cases e)
  show ?case
  proof (cases "b = w")
    case True
    with Cons.prems e have "(a, wd') = (b, f wd) \<or> (a, wd') \<in> set us" by simp
    with e show ?thesis by auto
  next
    case False
    with Cons.prems e have "(a, wd') = (b, wd) \<or> (a, wd') \<in> set (store_from us w f)" by simp
    with Cons.IH e show ?thesis by auto
  qed
qed

lemma store_from_head:
  "store_from ((w, wd) # rest) w f = (w, f wd) # rest"
  by simp


lemma wfD:
  assumes "wf st"
  shows "\<exists>us. dictionary st = us @ dictionary forth0 \<and>
           (\<forall>a wd. (a, wd) \<in> set us \<longrightarrow> is_immediate wd = 0 \<and> code wd = None \<and>
           brk forth0 \<le> a \<and> a < brk st \<and> \<not> is_number_cell a \<and>
           (\<forall>cells. data wd = Some cells \<longrightarrow>
              semicolon_entry \<notin> set cells \<and> data_len wd = int (length cells))) \<and>
           (brk forth0 \<le> brk st \<and> \<not> is_number_cell (brk st)) \<and>
           (\<forall>cells. compile_buffer st = Some cells \<longrightarrow> semicolon_entry \<notin> set cells) \<and>
           (compiling st = 0 \<longrightarrow> current_word st = NULL) \<and>
           (compiling st \<noteq> 0 \<longrightarrow> (\<exists>wd rest buf. us = (current_word st, wd) # rest \<and>
                 compile_buffer st = Some buf \<and> compile_pos st = int (length buf)))"
proof -
  from assms obtain us where 1: "dictionary st = us @ dictionary forth0"
    and 2: "\<forall>(a, wd) \<in> set us. is_immediate wd = 0 \<and> code wd = None \<and>
           brk forth0 \<le> a \<and> a < brk st \<and> \<not> is_number_cell a \<and>
           (\<forall>cells. data wd = Some cells \<longrightarrow>
              semicolon_entry \<notin> set cells \<and> data_len wd = int (length cells))"
    and 3: "brk forth0 \<le> brk st \<and> \<not> is_number_cell (brk st)"
    and 4: "\<forall>cells. compile_buffer st = Some cells \<longrightarrow> semicolon_entry \<notin> set cells"
    and 5: "if compiling st = 0 then current_word st = NULL
         else (\<exists>wd rest buf. us = (current_word st, wd) # rest \<and>
                 compile_buffer st = Some buf \<and> compile_pos st = int (length buf))"
    unfolding wf_def by blast
  from 2 have e2: "(\<forall>a wd. (a, wd) \<in> set us \<longrightarrow> is_immediate wd = 0 \<and> code wd = None \<and>
           brk forth0 \<le> a \<and> a < brk st \<and> \<not> is_number_cell a \<and>
           (\<forall>cells. data wd = Some cells \<longrightarrow>
              semicolon_entry \<notin> set cells \<and> data_len wd = int (length cells)))" by blast
  from 5 have e5: "compiling st = 0 \<longrightarrow> current_word st = NULL"
    and 6: "compiling st \<noteq> 0 \<longrightarrow> (\<exists>wd rest buf. us = (current_word st, wd) # rest \<and>
                 compile_buffer st = Some buf \<and> compile_pos st = int (length buf))"
    by (simp_all split: if_splits)
  from 1 e2 3 4 e5 6 show ?thesis by blast
qed

lemma wfI:
  assumes "dictionary st = us @ dictionary forth0"
    and "\<And>a wd. (a, wd) \<in> set us \<Longrightarrow> is_immediate wd = 0 \<and> code wd = None \<and>
           brk forth0 \<le> a \<and> a < brk st \<and> \<not> is_number_cell a \<and>
           (\<forall>cells. data wd = Some cells \<longrightarrow>
              semicolon_entry \<notin> set cells \<and> data_len wd = int (length cells))"
    and "brk forth0 \<le> brk st \<and> \<not> is_number_cell (brk st)"
    and "\<And>cells. compile_buffer st = Some cells \<Longrightarrow> semicolon_entry \<notin> set cells"
    and "compiling st = 0 \<Longrightarrow> current_word st = NULL"
    and "compiling st \<noteq> 0 \<Longrightarrow> \<exists>wd rest buf. us = (current_word st, wd) # rest \<and>
                 compile_buffer st = Some buf \<and> compile_pos st = int (length buf)"
  shows "wf st"
proof -
  have "\<forall>(a, wd) \<in> set us. is_immediate wd = 0 \<and> code wd = None \<and>
           brk forth0 \<le> a \<and> a < brk st \<and> \<not> is_number_cell a \<and>
           (\<forall>cells. data wd = Some cells \<longrightarrow>
              semicolon_entry \<notin> set cells \<and> data_len wd = int (length cells))"
    using assms(2) by blast
  moreover have "\<forall>cells. compile_buffer st = Some cells \<longrightarrow> semicolon_entry \<notin> set cells"
    using assms(4) by blast
  moreover have "if compiling st = 0 then current_word st = NULL
         else (\<exists>wd rest buf. us = (current_word st, wd) # rest \<and>
                 compile_buffer st = Some buf \<and> compile_pos st = int (length buf))"
    using assms(5,6) by simp
  ultimately show ?thesis
    unfolding wf_def using assms(1,3) by blast
qed

lemma wf_end_compile:
  assumes "wf st"
  shows "wf (end_compile st)"
proof -
  from wfD [OF assms(1)] obtain us where us: "dictionary st = us @ dictionary forth0"
    and ent: "\<And>a wd. (a, wd) \<in> set us \<Longrightarrow> is_immediate wd = 0 \<and> code wd = None \<and>
           brk forth0 \<le> a \<and> a < brk st \<and> \<not> is_number_cell a \<and>
           (\<forall>cells. data wd = Some cells \<longrightarrow>
              semicolon_entry \<notin> set cells \<and> data_len wd = int (length cells))"
    and brk: "brk forth0 \<le> brk st \<and> \<not> is_number_cell (brk st)"
    and buf: "\<And>cells. compile_buffer st = Some cells \<Longrightarrow> semicolon_entry \<notin> set cells"
    and c0: "compiling st = 0 \<Longrightarrow> current_word st = NULL"
    and c1: "compiling st \<noteq> 0 \<Longrightarrow> \<exists>wd rest buf. us = (current_word st, wd) # rest \<and>
                 compile_buffer st = Some buf \<and> compile_pos st = int (length buf)"
    by blast
  show ?thesis
  proof (cases "compiling st = 0")
    case True
    then have cw: "current_word st = NULL" by (rule c0)
    show ?thesis
    proof (rule wfI [of _ us])
      show "dictionary (end_compile st) = us @ dictionary forth0"
        using cw us by (simp add: end_compile_def)
      show "brk forth0 \<le> brk (end_compile st) \<and> \<not> is_number_cell (brk (end_compile st))" using brk by (simp add: end_compile_def Let_def)
      show "\<And>a wd. (a, wd) \<in> set us \<Longrightarrow> is_immediate wd = 0 \<and> code wd = None \<and>
           brk forth0 \<le> a \<and> a < brk (end_compile st) \<and> \<not> is_number_cell a \<and>
           (\<forall>cells. data wd = Some cells \<longrightarrow>
              semicolon_entry \<notin> set cells \<and> data_len wd = int (length cells))"
        using ent by (simp add: end_compile_def Let_def)
    qed (simp_all add: end_compile_def Let_def)
  next
    case False
    from c1 [OF False] obtain wd0 rest b where
      h: "us = (current_word st, wd0) # rest" "compile_buffer st = Some b"
        "compile_pos st = int (length b)"
      by blast
    let ?f = "\<lambda>wd. wd\<lparr>data := compile_buffer st, data_len := compile_pos st\<rparr>"
    let ?us = "(current_word st, ?f wd0) # rest"
    from h(1) ent [of "current_word st" wd0] have cwn: "brk forth0 \<le> current_word st"
      and e0: "is_immediate wd0 = 0" "code wd0 = None" "current_word st < brk st"
        "\<not> is_number_cell (current_word st)"
      by simp_all
    have "brk forth0 \<noteq> 0" by (simp add: forth0_fields)
    with cwn have nn: "current_word st \<noteq> NULL" by (auto simp: NULL_def)
    show ?thesis
    proof (rule wfI [of _ ?us])
      show "dictionary (end_compile st) = ?us @ dictionary forth0"
        using nn us h(1) by (simp add: end_compile_def Let_def)
      show "brk forth0 \<le> brk (end_compile st) \<and> \<not> is_number_cell (brk (end_compile st))" using brk by (simp add: end_compile_def Let_def)
      show "is_immediate wd = 0 \<and> code wd = None \<and>
           brk forth0 \<le> a \<and> a < brk (end_compile st) \<and> \<not> is_number_cell a \<and>
           (\<forall>cells. data wd = Some cells \<longrightarrow>
              semicolon_entry \<notin> set cells \<and> data_len wd = int (length cells))"
        if m: "(a, wd) \<in> set ?us" for a wd
      proof (cases "(a, wd) = (current_word st, ?f wd0)")
        case True
        with e0 cwn nn h(2,3) buf [OF h(2)] show ?thesis by (simp add: end_compile_def Let_def)
      next
        case False
        with m h(1) have "(a, wd) \<in> set us" by auto
        from ent [OF this] show ?thesis by (simp add: end_compile_def Let_def)
      qed
    qed (simp_all add: end_compile_def Let_def)
  qed
qed

lemma wf_semicolon: "wf st \<Longrightarrow> semicolon st = Inr st' \<Longrightarrow> wf st'"
  by (auto simp: semicolon_def wf_end_compile wf_printf split: if_splits)


lemma wf_colon:
  assumes "wf st" "colon st = Inr st'"
  shows "wf st'"
proof (cases "sscanf_s (input_ptr st)")
  case None
  with assms show ?thesis by (auto simp: colon_def wf_printf)
next
  case (Some nm)
  with assms(2) obtain p w st2 where
    len: "length nm < WORD_SIZE" and
    m: "malloc_Word (st\<lparr>input_ptr := drop (length nm) p\<rparr>) = Some (w, st2)" and
    st': "st' = start_compile (st2\<lparr>dictionary :=
             (w, \<lparr>name = take (WORD_SIZE - 1) nm, is_immediate = 0, code = None,
                  data = None, data_len = 0\<rparr>) # dictionary st2, current_word := w\<rparr>)"
    by (auto simp: colon_def Let_def split: if_splits option.splits)
  from malloc_Word_SomeD [OF m] have w: "w = brk st"
    and st2: "st2 = st\<lparr>input_ptr := drop (length nm) p, brk := brk st + word_of_nat Word_block\<rparr>"
    and lt: "brk st < brk st2"
    by simp_all
  from wfD [OF assms(1)] obtain us where us: "dictionary st = us @ dictionary forth0"
    and ent: "\<And>a wd. (a, wd) \<in> set us \<Longrightarrow> is_immediate wd = 0 \<and> code wd = None \<and>
           brk forth0 \<le> a \<and> a < brk st \<and> \<not> is_number_cell a \<and>
           (\<forall>cells. data wd = Some cells \<longrightarrow>
              semicolon_entry \<notin> set cells \<and> data_len wd = int (length cells))"
    and brk: "brk forth0 \<le> brk st \<and> \<not> is_number_cell (brk st)"
    and buf: "\<And>cells. compile_buffer st = Some cells \<Longrightarrow> semicolon_entry \<notin> set cells"
    and c0: "compiling st = 0 \<Longrightarrow> current_word st = NULL"
    and c1: "compiling st \<noteq> 0 \<Longrightarrow> \<exists>wd rest buf. us = (current_word st, wd) # rest \<and>
                 compile_buffer st = Some buf \<and> compile_pos st = int (length buf)"
    by blast
  let ?e = "\<lparr>name = take (WORD_SIZE - 1) nm, is_immediate = 0, code = None,
               data = None :: ptr list option, data_len = 0\<rparr>"
  have d: "dictionary st' = ((w, ?e) # us) @ dictionary forth0"
    "brk st' = brk st2" "compile_buffer st' = Some []" "compile_pos st' = 0"
    "compiling st' = 1" "current_word st' = w"
    using us by (simp_all add: st' st2 start_compile_def)
  show ?thesis
  proof (rule wfI [of _ "(w, ?e) # us"])
    show "dictionary st' = ((w, ?e) # us) @ dictionary forth0" by (rule d)
    have "\<not> is_number_cell (brk st2)"
      using brk malloc_Word_even [of st] by (simp add: st2)
    moreover from brk lt have "brk forth0 \<le> brk st2" by auto
    ultimately show "brk forth0 \<le> brk st' \<and> \<not> is_number_cell (brk st')"
      using d(2) by simp
    show "is_immediate wd = 0 \<and> code wd = None \<and> brk forth0 \<le> a \<and> a < brk st' \<and> \<not> is_number_cell a \<and>
           (\<forall>cells. data wd = Some cells \<longrightarrow>
              semicolon_entry \<notin> set cells \<and> data_len wd = int (length cells))"
      if m: "(a, wd) \<in> set ((w, ?e) # us)" for a wd
    proof (cases "(a, wd) = (w, ?e)")
      case True
      with brk lt w d(2) show ?thesis by simp
    next
      case False
      with m have "(a, wd) \<in> set us" by auto
      from ent [OF this] lt d(2) show ?thesis by auto
    qed
    show "\<And>cells. compile_buffer st' = Some cells \<Longrightarrow> semicolon_entry \<notin> set cells"
      using d(3) by simp
    show "compiling st' = 0 \<Longrightarrow> current_word st' = NULL" using d(5) by simp
    show "compiling st' \<noteq> 0 \<Longrightarrow> \<exists>wd rest buf. (w, ?e) # us = (current_word st', wd) # rest \<and>
                 compile_buffer st' = Some buf \<and> compile_pos st' = int (length buf)"
      using d by simp
  qed
qed

lemma wf_compile_item:
  assumes "wf st" "c \<noteq> semicolon_entry" "compile_item c st = Inr st'"
  shows "wf st'"
proof -
  from assms(3) obtain b where b: "compile_buffer st = Some b" and pos: "0 \<le> compile_pos st"
    and d: "dictionary st' = dictionary st" "current_word st' = current_word st"
      "brk st' = brk st" "compiling st' = compiling st"
      "compile_buffer st' = Some (take (nat (compile_pos st)) b @ [c])"
      "compile_pos st' = compile_pos st + 1"
    by (auto simp: compile_item_def Let_def split: if_splits option.splits)
  from wfD [OF assms(1)] obtain us where us: "dictionary st = us @ dictionary forth0"
    and ent: "\<And>a wd. (a, wd) \<in> set us \<Longrightarrow> is_immediate wd = 0 \<and> code wd = None \<and>
           brk forth0 \<le> a \<and> a < brk st \<and> \<not> is_number_cell a \<and>
           (\<forall>cells. data wd = Some cells \<longrightarrow>
              semicolon_entry \<notin> set cells \<and> data_len wd = int (length cells))"
    and brk: "brk forth0 \<le> brk st \<and> \<not> is_number_cell (brk st)"
    and buf: "\<And>cells. compile_buffer st = Some cells \<Longrightarrow> semicolon_entry \<notin> set cells"
    and c0: "compiling st = 0 \<Longrightarrow> current_word st = NULL"
    and c1: "compiling st \<noteq> 0 \<Longrightarrow> \<exists>wd rest buf. us = (current_word st, wd) # rest \<and>
                 compile_buffer st = Some buf \<and> compile_pos st = int (length buf)"
    by blast
  from buf [OF b] have "semicolon_entry \<notin> set (take (nat (compile_pos st)) b)"
    by (auto dest: in_set_takeD)
  with assms(2) have nb: "semicolon_entry \<notin> set (take (nat (compile_pos st)) b @ [c])" by simp
  show ?thesis
  proof (rule wfI [of _ us])
    show "dictionary st' = us @ dictionary forth0" using us d(1) by simp
    show "brk forth0 \<le> brk st' \<and> \<not> is_number_cell (brk st')" using brk d(3) by simp
    show "\<And>a wd. (a, wd) \<in> set us \<Longrightarrow> is_immediate wd = 0 \<and> code wd = None \<and>
           brk forth0 \<le> a \<and> a < brk st' \<and> \<not> is_number_cell a \<and>
           (\<forall>cells. data wd = Some cells \<longrightarrow>
              semicolon_entry \<notin> set cells \<and> data_len wd = int (length cells))"
      using ent d(3) by simp
    show "\<And>cells. compile_buffer st' = Some cells \<Longrightarrow> semicolon_entry \<notin> set cells"
      using nb d(5) by simp
    show "compiling st' = 0 \<Longrightarrow> current_word st' = NULL" using c0 d(2,4) by simp
    show "\<exists>wd rest buf. us = (current_word st', wd) # rest \<and>
                 compile_buffer st' = Some buf \<and> compile_pos st' = int (length buf)"
      if "compiling st' \<noteq> 0"
    proof -
      from that d(4) have "compiling st \<noteq> 0" by simp
      from c1 [OF this] b obtain wd rest where "us = (current_word st, wd) # rest"
        and "compile_pos st = int (length b)" by auto
      with d(2,5,6) show ?thesis by simp
    qed
  qed
qed

lemma wf_run_prim:
  assumes "wf st" "run_prim p st = Inr st'"
  shows "wf st'"
proof (cases "p = Colon \<or> p = Semicolon")
  case True
  then show ?thesis
  proof
    assume "p = Colon"
    with assms(2) have "colon st = Inr st'" by (simp add: run_prim_def)
    with assms(1) show ?thesis by (rule wf_colon)
  next
    assume "p = Semicolon"
    with assms(2) have "semicolon st = Inr st'" by (simp add: run_prim_def)
    with assms(1) show ?thesis by (rule wf_semicolon)
  qed
next
  case False
  then have "p \<noteq> Colon" "p \<noteq> Semicolon" by simp_all
  with assms(2) have "compiler_state st' = compiler_state st" by (rule run_prim_frame)
  then show ?thesis using assms(1) by (rule wf_frame)
qed

lemma wf_push: "wf st \<Longrightarrow> push v st = Inr st' \<Longrightarrow> wf st'"
  using push_frame wf_frame by blast

lemma wf_execute:
  "(\<forall>w st st'. wf st \<longrightarrow> execute_word n w st = Inr st' \<longrightarrow> wf st') \<and>
   (\<forall>w i st st'. wf st \<longrightarrow> execute_body n w i st = Inr st' \<longrightarrow> wf st')"
proof (induction n)
  case 0
  show ?case by simp
next
  case (Suc n)
  have IHw: "\<And>w st st'. wf st \<Longrightarrow> execute_word n w st = Inr st' \<Longrightarrow> wf st'"
    and IHb: "\<And>w i st st'. wf st \<Longrightarrow> execute_body n w i st = Inr st' \<Longrightarrow> wf st'"
    using Suc.IH by blast+
  have w: "wf st'" if wf: "wf st" and ex: "execute_word (Suc n) w st = Inr st'" for w st st'
  proof -
    from ex obtain wd where wd: "deref st w = Some wd"
      by (cases "deref st w") simp_all
    show ?thesis
    proof (cases "code wd")
      case (Some p)
      with ex wd have "run_prim p st = Inr st'" by simp
      with wf show ?thesis by (rule wf_run_prim)
    next
      case None
      show ?thesis
      proof (cases "data wd = None")
        case True
        with ex wd None have "st' = st" by simp
        with wf show ?thesis by simp
      next
        case False
        with ex wd None have "execute_body n w 0 st = Inr st'" by simp
        with wf show ?thesis by (rule IHb)
      qed
    qed
  qed
  have b: "wf st'" if wf: "wf st" and ex: "execute_body (Suc n) w i st = Inr st'" for w i st st'
  proof -
    from ex obtain wd where wd: "deref st w = Some wd"
      by (cases "deref st w") simp_all
    show ?thesis
    proof (cases "i < data_len wd")
      case False
      with ex wd have "st' = st" by simp
      with wf show ?thesis by simp
    next
      case True
      with ex wd obtain cells where cells: "data wd = Some cells"
        by (cases "data wd") simp_all
      from ex wd True cells have inb: "\<not> (i < 0 \<or> int (length cells) \<le> i)"
        by (auto split: if_splits)
      show ?thesis
      proof (cases "is_number_cell (cells ! nat i)")
        case True
        with ex wd \<open>i < data_len wd\<close> cells inb obtain st1 where
          1: "push (decode_number (cells ! nat i)) st = Inr st1" and
          2: "execute_body n w (i + 1) st1 = Inr st'"
          by (cases "push (decode_number (cells ! nat i)) st") (simp_all add: Let_def)
        from wf 1 have "wf st1" by (rule wf_push)
        then show ?thesis using 2 by (rule IHb)
      next
        case False
        with ex wd \<open>i < data_len wd\<close> cells inb obtain st1 where
          1: "execute_word n (cells ! nat i) st = Inr st1" and
          2: "execute_body n w (i + 1) st1 = Inr st'"
          by (cases "execute_word n (cells ! nat i) st") (simp_all add: Let_def)
        from wf 1 have "wf st1" by (rule IHw)
        then show ?thesis using 2 by (rule IHb)
      qed
    qed
  qed
  from w b show ?case by blast
qed

lemma wf_execute_word: "wf st \<Longrightarrow> execute_word n w st = Inr st' \<Longrightarrow> wf st'"
  using wf_execute by blast

section \<open>Looking names up\<close>

lemma find_word_from_in:
  "find_word_from d nm \<noteq> NULL \<Longrightarrow> find_word_from d nm \<in> fst ` set d"
  by (induction d) (auto split: if_splits)

lemma find_word_deref:
  assumes "find_word st nm \<noteq> NULL"
  shows "\<exists>wd. deref st (find_word st nm) = Some wd"
proof -
  from assms have "find_word st nm \<in> fst ` set (dictionary st)"
    unfolding find_word_def by (rule find_word_from_in)
  then have "map_of (dictionary st) (find_word st nm) \<noteq> None"
    by (simp add: map_of_eq_None_iff)
  then show ?thesis by (auto simp: deref_def)
qed

lemma map_of_append_right: "k \<notin> fst ` set xs \<Longrightarrow> map_of (xs @ ys) k = map_of ys k"
  by (induction xs) auto

lemma map_of_append_left: "k \<in> fst ` set xs \<Longrightarrow> map_of (xs @ ys) k = map_of xs k"
  by (induction xs) auto

lemma user_not_builtin:
  assumes "\<And>a wd. (a, wd) \<in> set us \<Longrightarrow> brk forth0 \<le> a"
    and "(b, wd0) \<in> set (dictionary forth0)"
  shows "b \<notin> fst ` set us"
proof
  assume "b \<in> fst ` set us"
  then obtain wd where "(b, wd) \<in> set us" by auto
  then have "brk forth0 \<le> b" by (rule assms(1))
  moreover from assms(2) have "b < brk forth0" by (simp add: builtin_addresses)
  ultimately show False by simp
qed

lemma wf_deref_cases:
  assumes "wf st" "deref st w = Some wd"
  shows "(is_immediate wd = 0 \<and> w \<noteq> semicolon_entry) \<or>
         (is_immediate wd \<noteq> 0 \<and> w = semicolon_entry \<and> code wd = Some Semicolon)"
proof -
  from wfD [OF assms(1)] obtain us where us: "dictionary st = us @ dictionary forth0"
    and ent: "\<And>a wd. (a, wd) \<in> set us \<Longrightarrow> is_immediate wd = 0 \<and> code wd = None \<and>
           brk forth0 \<le> a \<and> a < brk st \<and> \<not> is_number_cell a \<and>
           (\<forall>cells. data wd = Some cells \<longrightarrow>
              semicolon_entry \<notin> set cells \<and> data_len wd = int (length cells))"
    by blast
  have semi: "(semicolon_entry, \<lparr>name = '';'', is_immediate = 1, code = Some Semicolon,
                 data = None, data_len = 0\<rparr>) \<in> set (dictionary forth0)"
    using builtin_semicolon by (rule map_of_SomeD)
  show ?thesis
  proof (cases "w \<in> fst ` set us")
    case True
    from assms(2) have "map_of (us @ dictionary forth0) w = Some wd"
      unfolding deref_def us .
    with map_of_append_left [OF True] have "map_of us w = Some wd" by (simp only:)
    then have m: "(w, wd) \<in> set us" by (rule map_of_SomeD)
    from ent [OF m] have "is_immediate wd = 0" by simp
    moreover have "semicolon_entry \<notin> fst ` set us"
      using semi by (rule user_not_builtin [rotated]) (use ent in blast)
    with True have "w \<noteq> semicolon_entry" by blast
    ultimately show ?thesis by simp
  next
    case False
    from assms(2) have "map_of (us @ dictionary forth0) w = Some wd"
      unfolding deref_def us .
    with map_of_append_right [OF False] have "map_of (dictionary forth0) w = Some wd"
      by (simp only:)
    then have m: "(w, wd) \<in> set (dictionary forth0)" by (rule map_of_SomeD)
    show ?thesis
    proof (cases "is_immediate wd = 0")
      case True
      have "w \<noteq> semicolon_entry"
      proof
        assume "w = semicolon_entry"
        with \<open>map_of (dictionary forth0) w = Some wd\<close> builtin_semicolon
        have "wd = \<lparr>name = '';'', is_immediate = 1, code = Some Semicolon,
                 data = None, data_len = 0\<rparr>" by simp
        then have "is_immediate wd = 1" by simp
        with True show False by simp
      qed
      with True show ?thesis by simp
    next
      case False
      with builtin_immediate [OF m] show ?thesis by simp
    qed
  qed
qed

lemma tag_number_is_number: "is_number_cell (tag_number num)"
proof -
  have b: "bit (push_bit 1 num OR 1 AND (1 :: 64 word)) 0"
    by (simp add: bit_simps)
  have "push_bit 1 num OR 1 AND (1 :: 64 word) \<noteq> 0"
  proof
    assume "push_bit 1 num OR 1 AND (1 :: 64 word) = 0"
    then have "\<not> bit (push_bit 1 num OR 1 AND (1 :: 64 word)) 0" by (simp only: bit_0_eq) simp
    with b show False by simp
  qed
  then show ?thesis by (simp add: is_number_cell_def tag_number_def)
qed

lemma semicolon_entry_not_number: "\<not> is_number_cell semicolon_entry"
  by (simp add: is_number_cell_def semicolon_entry_eq)

lemma tag_number_ne: "tag_number num \<noteq> semicolon_entry"
  using tag_number_is_number semicolon_entry_not_number by metis

section \<open>The invariant along a run\<close>

lemma wf_round:
  assumes "wf st" "interpret_round n st = Continue st' \<or> interpret_round n st = Return st'"
  shows "wf st'"
proof (cases "sscanf_s (input_ptr st)")
  case None
  then have "interpret_round n st = Return st" by (rule round_end)
  with assms show ?thesis by simp
next
  case (Some tok)
  show ?thesis
  proof (cases "length tok < WORD_SIZE")
    case False
    with Some have "interpret_round n st = Abort (Undefined BufferOverrun)"
      by (intro round_too_long) (simp_all add: not_less)
    with assms(2) show ?thesis by simp
  next
    case len: True
    have wfc: "wf (consume tok st)" using assms(1) by (simp add: wf_consume)
    show ?thesis
    proof (cases "is_number tok")
      case True
      then obtain num where num: "strtol tok = (num, [])"
        by (cases "strtol tok") (simp add: is_number_def)
      show ?thesis
      proof (cases "compiling st = 0")
        case True
        from round_number_interactive [OF Some len num True, of n] assms(2)
        have "push (ucast num) (consume tok st) = Inr st'"
          by (cases "push (ucast num) (consume tok st)") auto
        with wfc show ?thesis by (rule wf_push)
      next
        case False
        from round_number_compiling [OF Some len num False, of n] assms(2)
        have "compile_item (tag_number num) (consume tok st) = Inr st'"
          by (cases "compile_item (tag_number num) (consume tok st)") auto
        with wfc tag_number_ne show ?thesis by (rule wf_compile_item)
      qed
    next
      case nn: False
      show ?thesis
      proof (cases "find_word st tok = NULL")
        case True
        from round_unknown [OF Some len nn True, of n] assms(2)
        have "st' = (if compiling st \<noteq> 0
             then end_compile (printf (''Unknown word: '' @ tok @ [CHR 0x0A]) (consume tok st))
             else printf (''Unknown word: '' @ tok @ [CHR 0x0A]) (consume tok st))"
          by simp
        with assms(1) show ?thesis by (simp add: wf_end_compile wf_printf wf_consume)
      next
        case False
        from find_word_deref [OF False] obtain wd where wd: "deref st (find_word st tok) = Some wd"
          by blast
        show ?thesis
        proof (cases "compiling st \<noteq> 0 \<and> is_immediate wd = 0")
          case True
          then have c: "compiling st \<noteq> 0" and i: "is_immediate wd = 0" by simp_all
          from round_word_compile [OF Some len nn False wd c i, of n] assms(2)
          have ci: "compile_item (find_word st tok) (consume tok st) = Inr st'"
            by (cases "compile_item (find_word st tok) (consume tok st)") auto
          from wf_deref_cases [OF assms(1) wd] i have "find_word st tok \<noteq> semicolon_entry"
            by simp
          with wfc show ?thesis using ci by (rule wf_compile_item)
        next
          case False
          then have "compiling st = 0 \<or> is_immediate wd \<noteq> 0" by blast
          from round_word_execute [OF Some len nn \<open>find_word st tok \<noteq> NULL\<close> wd this, of n] assms(2)
          have "execute_word n (find_word st tok) (consume tok st) = Inr st'"
            by (cases "execute_word n (find_word st tok) (consume tok st)") auto
          with wfc show ?thesis by (rule wf_execute_word)
        qed
      qed
    qed
  qed
qed

lemma reach_wf: "reach st \<Longrightarrow> wf st"
proof (induction rule: reach.induct)
  case start
  show ?case by (rule wf_forth0)
next
  case (line st l)
  then show ?case by (simp add: wf_cursor)
next
  case (continue st n st')
  then show ?case using wf_round by blast
next
  case (return st n st')
  then show ?case using wf_round by blast
qed

lemma reach_loop:
  "reach st \<Longrightarrow> interpret_loop n st = Inr st' \<Longrightarrow> reach st'"
proof (induction n arbitrary: st)
  case 0
  then show ?case by simp
next
  case (Suc n)
  show ?case
  proof (cases "interpret_round n st")
    case (Continue st1)
    with Suc.prems(1) have "reach st1" by (rule reach.continue)
    moreover from Suc.prems(2) Continue have "interpret_loop n st1 = Inr st'" by simp
    ultimately show ?thesis by (rule Suc.IH)
  next
    case (Return st1)
    with Suc.prems(2) have "st1 = st'" by simp
    with Suc.prems(1) Return show ?thesis using reach.return by blast
  next
    case (Abort e)
    with Suc.prems(2) show ?thesis by simp
  qed
qed

lemma reach_interpret_line:
  "reach st \<Longrightarrow> interpret_line n l st = Inr st' \<Longrightarrow> reach st'"
  unfolding interpret_line_def by (rule reach_loop [OF reach.line])

lemma reach_interpret_lines:
  "reach st \<Longrightarrow> interpret_lines n ls st = Inr st' \<Longrightarrow> reach st'"
proof (induction ls arbitrary: st)
  case Nil
  then show ?case by simp
next
  case (Cons l ls)
  from Cons.prems(2) obtain st1 where 1: "interpret_line n l st = Inr st1"
    and 2: "interpret_lines n ls st1 = Inr st'"
    by (cases "interpret_line n l st") simp_all
  from Cons.prems(1) 1 have "reach st1" by (rule reach_interpret_line)
  then show ?case using 2 by (rule Cons.IH)
qed

section \<open>Reading the tokens of a line\<close>

lemma is_tokenD:
  assumes "is_token t"
  shows "t \<noteq> []" "length t < WORD_SIZE" "\<not> isspace (hd t)" "\<And>c. c \<in> set t \<Longrightarrow> \<not> isspace c"
    "CHR 0x00 \<notin> set t"
proof -
  from assms show 1: "t \<noteq> []" and "length t < WORD_SIZE"
    and 2: "\<And>c. c \<in> set t \<Longrightarrow> \<not> isspace c" and "CHR 0x00 \<notin> set t"
    unfolding is_token_def by blast+
  from 1 have "hd t \<in> set t" by (rule hd_in_set)
  then show "\<not> isspace (hd t)" by (rule 2)
qed

lemma token_dropWhile:
  assumes "is_token t"
  shows "dropWhile isspace (t @ r) = t @ r"
proof -
  from is_tokenD(1) [OF assms] obtain c cs where t: "t = c # cs" by (cases t) simp_all
  with is_tokenD(3) [OF assms] have "\<not> isspace c" by simp
  with t show ?thesis by simp
qed

lemma token_takeWhile:
  assumes "is_token t" "r = [] \<or> isspace (hd r)"
  shows "takeWhile (\<lambda>c. \<not> isspace c) (t @ r) = t"
proof -
  have a: "\<forall>c\<in>set t. \<not> isspace c" using is_tokenD(4) [OF assms(1)] by blast
  from assms(2) have "takeWhile (\<lambda>c. \<not> isspace c) r = []" by (cases r) auto
  with a show ?thesis by (simp add: takeWhile_append2)
qed

lemma sscanf_s_token:
  assumes "is_token t" "r = [] \<or> isspace (hd r)" "\<forall>c\<in>set ws. isspace c"
  shows "sscanf_s (ws @ t @ r) = Some t"
proof -
  from assms(3) have "dropWhile isspace (ws @ t @ r) = dropWhile isspace (t @ r)"
    by (simp add: dropWhile_append2)
  also have "\<dots> = t @ r" using assms(1) by (rule token_dropWhile)
  finally have "dropWhile isspace (ws @ t @ r) = t @ r" .
  moreover have "takeWhile (\<lambda>c. \<not> isspace c) (t @ r) = t" using assms(1,2) by (rule token_takeWhile)
  moreover have "t \<noteq> []" using assms(1) by (rule is_tokenD)
  ultimately show ?thesis by (simp add: sscanf_s_def)
qed

lemma consume_token:
  assumes "is_token t" "\<forall>c\<in>set ws. isspace c" "input_ptr st = ws @ t @ r"
  shows "consume t st = st\<lparr>input_ptr := r\<rparr>"
proof -
  from assms(2) have "dropWhile isspace (ws @ t @ r) = dropWhile isspace (t @ r)"
    by (simp add: dropWhile_append2)
  also have "\<dots> = t @ r" using assms(1) by (rule token_dropWhile)
  finally have "dropWhile isspace (input_ptr st) = t @ r" using assms(3) by simp
  then show ?thesis by (simp add: consume_def)
qed

lemma sscanf_s_spaces:
  assumes "\<forall>c\<in>set ws. isspace c"
  shows "sscanf_s ws = None"
proof -
  from assms have d: "dropWhile isspace ws = []" by simp
  show ?thesis unfolding sscanf_s_def d by simp
qed

lemma isspace_space [simp]: "isspace (CHR '' '')"
  by (simp add: isspace_def)

lemma c_str_id: "CHR 0x00 \<notin> set s \<Longrightarrow> c_str s = s"
  unfolding c_str_def by (auto simp add: takeWhile_eq_all_conv)

text \<open>The name of a definition: \<^verbatim>\<open>colon\<close> reads it with the same two calls.\<close>

lemma colon_defines:
  assumes "sscanf_s (input_ptr st) = Some nm" "length nm < WORD_SIZE"
    "unat (brk st) + Word_block < 2 ^ 64"
  shows "colon st =
     Inr ((consume nm st)\<lparr>dictionary :=
             (brk st, \<lparr>name = nm, is_immediate = 0, code = None, data = None, data_len = 0\<rparr>)
               # dictionary st,
           current_word := brk st, compiling := 1, compile_buffer := Some [], compile_pos := 0,
           compile_size := 64, brk := brk st + word_of_nat Word_block\<rparr>)"
proof -
  note p = round_prelude [OF assms(1)]
  from assms(2) have t: "take (WORD_SIZE - 1) nm = nm" by simp
  from assms(2) have l: "\<not> WORD_SIZE \<le> length nm" by simp
  have m: "malloc_Word (consume nm st) =
      Some (brk st, (consume nm st)\<lparr>brk := brk st + word_of_nat Word_block\<rparr>)"
    using assms(3) by (simp add: malloc_Word_def consume_def)
  have "colon st =
      (case malloc_Word (consume nm st) of
         None \<Rightarrow> Inl (Undefined InvalidPointer)
       | Some (w, st2) \<Rightarrow>
           Inr (start_compile
             (st2\<lparr>dictionary :=
                    (w, \<lparr>name = take (WORD_SIZE - 1) nm, is_immediate = 0,
                         code = None, data = None, data_len = 0\<rparr>) # dictionary st2,
                  current_word := w\<rparr>)))"
    unfolding colon_def assms(1) p(1) Let_def option.case if_not_P [OF l] p(2) ..
  also have "\<dots> = Inr (start_compile
             (((consume nm st)\<lparr>brk := brk st + word_of_nat Word_block\<rparr>)\<lparr>dictionary :=
                    (brk st, \<lparr>name = nm, is_immediate = 0,
                         code = None, data = None, data_len = 0\<rparr>) # dictionary (consume nm st),
                  current_word := brk st\<rparr>))"
    unfolding m t by simp
  also have "\<dots> = Inr ((consume nm st)\<lparr>dictionary :=
             (brk st, \<lparr>name = nm, is_immediate = 0, code = None, data = None, data_len = 0\<rparr>)
               # dictionary st,
           current_word := brk st, compiling := 1, compile_buffer := Some [], compile_pos := 0,
           compile_size := 64, brk := brk st + word_of_nat Word_block\<rparr>)"
    by (simp add: start_compile_def)
  finally show ?thesis .
qed

lemma strcasecmp_refl [simp]: "strcasecmp s s = 0"
  by (induction s) simp_all

lemma strcasecmp_sym: "strcasecmp a b = 0 \<longleftrightarrow> strcasecmp b a = 0"
  by (induction a b rule: strcasecmp.induct) auto

section \<open>The entry under definition\<close>

lemma compiling_head:
  assumes "wf st" "compiling st \<noteq> 0"
  shows "\<exists>wd rest buf. dictionary st = (current_word st, wd) # rest \<and>
           compile_buffer st = Some buf \<and> compile_pos st = int (length buf) \<and>
           code wd = None \<and> is_immediate wd = 0 \<and> current_word st \<noteq> NULL \<and>
           \<not> is_number_cell (current_word st)"
proof -
  from wfD [OF assms(1)] obtain us where us: "dictionary st = us @ dictionary forth0"
    and ent: "\<And>a wd. (a, wd) \<in> set us \<Longrightarrow> is_immediate wd = 0 \<and> code wd = None \<and>
           brk forth0 \<le> a \<and> a < brk st \<and> \<not> is_number_cell a \<and>
           (\<forall>cells. data wd = Some cells \<longrightarrow>
              semicolon_entry \<notin> set cells \<and> data_len wd = int (length cells))"
    and c1: "compiling st \<noteq> 0 \<Longrightarrow> \<exists>wd rest buf. us = (current_word st, wd) # rest \<and>
                 compile_buffer st = Some buf \<and> compile_pos st = int (length buf)"
    by blast
  from c1 [OF assms(2)] obtain wd rest buf where h: "us = (current_word st, wd) # rest"
    and b: "compile_buffer st = Some buf" "compile_pos st = int (length buf)" by blast
  from h have "(current_word st, wd) \<in> set us" by simp
  from ent [OF this] have e: "is_immediate wd = 0" "code wd = None" "brk forth0 \<le> current_word st"
    "\<not> is_number_cell (current_word st)" by blast+
  from e(3) have n: "current_word st \<noteq> NULL" by (auto simp add: forth0_fields NULL_def)
  from us h have "dictionary st = (current_word st, wd) # rest @ dictionary forth0" by simp
  with b e n show ?thesis by blast
qed

lemma end_compile_head:
  assumes "dictionary st = (current_word st, wd) # rest" "current_word st \<noteq> NULL"
  shows "dictionary (end_compile st) =
           (current_word st, wd\<lparr>data := compile_buffer st, data_len := compile_pos st\<rparr>) # rest"
  using assms by (simp add: end_compile_def)

lemma deref_head: "dictionary st = (w, wd) # rest \<Longrightarrow> deref st w = Some wd"
  by (simp add: deref_def)


section \<open>The rounds of a definition\<close>

lemma builtin_even: "(a, wd) \<in> set (dictionary forth0) \<Longrightarrow> \<not> is_number_cell a"
  by (auto simp add: dictionary_forth0 is_number_cell_def)

lemma deref_builtin:
  assumes "wf st" "map_of (dictionary forth0) b = Some wd0"
  shows "deref st b = Some wd0"
proof -
  from wfD [OF assms(1)] obtain us where us: "dictionary st = us @ dictionary forth0"
    and ent: "\<And>a wd. (a, wd) \<in> set us \<Longrightarrow> is_immediate wd = 0 \<and> code wd = None \<and>
           brk forth0 \<le> a \<and> a < brk st \<and> \<not> is_number_cell a \<and>
           (\<forall>cells. data wd = Some cells \<longrightarrow>
              semicolon_entry \<notin> set cells \<and> data_len wd = int (length cells))"
    by blast
  from assms(2) have "(b, wd0) \<in> set (dictionary forth0)" by (rule map_of_SomeD)
  with ent have "b \<notin> fst ` set us" by (intro user_not_builtin) blast+
  then have "map_of (us @ dictionary forth0) b = map_of (dictionary forth0) b"
    by (rule map_of_append_right)
  with assms(2) show ?thesis unfolding deref_def us by simp
qed

lemma wf_entry:
  assumes "wf st" "deref st w = Some wd"
  shows "w \<noteq> NULL" "w < brk st" "\<not> is_number_cell w"
proof -
  from wfD [OF assms(1)] obtain us where us: "dictionary st = us @ dictionary forth0"
    and ent: "\<And>a wd. (a, wd) \<in> set us \<Longrightarrow> is_immediate wd = 0 \<and> code wd = None \<and>
           brk forth0 \<le> a \<and> a < brk st \<and> \<not> is_number_cell a \<and>
           (\<forall>cells. data wd = Some cells \<longrightarrow>
              semicolon_entry \<notin> set cells \<and> data_len wd = int (length cells))"
    and brk: "brk forth0 \<le> brk st \<and> \<not> is_number_cell (brk st)"
    by blast
  from assms(2) have "(w, wd) \<in> set (dictionary st)" unfolding deref_def by (rule map_of_SomeD)
  with us have "(w, wd) \<in> set us \<or> (w, wd) \<in> set (dictionary forth0)" by auto
  then have "w \<noteq> NULL \<and> w < brk st \<and> \<not> is_number_cell w"
  proof
    assume "(w, wd) \<in> set us"
    from ent [OF this] have "brk forth0 \<le> w" "w < brk st" "\<not> is_number_cell w" by blast+
    then show ?thesis by (auto simp add: forth0_fields NULL_def)
  next
    assume b: "(w, wd) \<in> set (dictionary forth0)"
    from builtin_addresses [OF b] builtin_even [OF b] brk show ?thesis by auto
  qed
  then show "w \<noteq> NULL" "w < brk st" "\<not> is_number_cell w" by blast+
qed

lemma colon_entry_eq: "colon_entry = 5696"
  unfolding colon_entry_def find_word_def by (rule builtin_colon)

lemma not_number_colon [simp]: "\<not> is_number '':''" "\<not> is_number '';''"
  by (simp_all add: is_number_def strtol_def isspace_def isdigit_def)

lemma is_token_colon [simp]: "is_token '':''" "is_token '';''"
  by (simp_all add: is_token_def isspace_def WORD_SIZE_def)

lemma colon_round:
  assumes "wf st" "compiling st = 0" "find_word st '':'' = colon_entry"
    "unat (brk st) + Word_block < 2 ^ 64"
    "input_ptr st = ws @ '':'' @ CHR '' '' # nm @ r" "\<forall>c\<in>set ws. isspace c"
    "is_token nm" "r = [] \<or> isspace (hd r)"
  shows "interpret_round (Suc k) st = Continue (open_word nm r st)"
proof -
  let ?r1 = "CHR '' '' # nm @ r"
  have t: "sscanf_s (input_ptr st) = Some '':''"
    unfolding assms(5) by (rule sscanf_s_token) (simp_all add: assms(6))
  have c: "consume '':'' st = st\<lparr>input_ptr := ?r1\<rparr>"
    using is_token_colon(1) assms(6,5) by (rule consume_token)
  have l: "length '':'' < WORD_SIZE" by (simp add: WORD_SIZE_def)
  have f: "find_word st '':'' \<noteq> NULL" by (simp add: assms(3) colon_entry_eq NULL_def)
  have d: "deref st (find_word st '':'') =
      Some \<lparr>name = '':'', is_immediate = 0, code = Some Colon, data = None, data_len = 0\<rparr>"
    unfolding assms(3) colon_entry_eq using assms(1) builtin_colon(2) by (rule deref_builtin)
  have "interpret_round (Suc k) st =
     (case execute_word (Suc k) (find_word st '':'') (consume '':'' st) of
        Inl e \<Rightarrow> Abort e | Inr st2 \<Rightarrow> Continue st2)"
    using t l not_number_colon(1) f d by (rule round_word_execute) (simp add: assms(2))
  also have "execute_word (Suc k) (find_word st '':'') (consume '':'' st) = colon (st\<lparr>input_ptr := ?r1\<rparr>)"
    using d by (simp add: c [symmetric] run_prim_def)
  also have "colon (st\<lparr>input_ptr := ?r1\<rparr>) = Inr (open_word nm r st)"
  proof -
    let ?s = "st\<lparr>input_ptr := ?r1\<rparr>"
    have s1: "sscanf_s (input_ptr ?s) = Some nm"
      using sscanf_s_token [OF assms(7,8), of "[CHR '' '']"] by simp
    have s2: "length nm < WORD_SIZE" using assms(7) by (rule is_tokenD)
    have s3: "unat (brk ?s) + Word_block < 2 ^ 64" using assms(4) by simp
    have s4: "consume nm ?s = ?s\<lparr>input_ptr := r\<rparr>"
      using consume_token [OF assms(7), of "[CHR '' '']" ?s r] by simp
    show ?thesis
      unfolding colon_defines [OF s1 s2 s3] s4 by (simp add: open_word_def)
  qed
  finally show ?thesis by simp
qed

lemma semicolon_round:
  assumes "wf st" "compiling st \<noteq> 0" "find_word st '';'' = semicolon_entry"
    "input_ptr st = ws @ '';'' @ r" "\<forall>c\<in>set ws. isspace c" "r = [] \<or> isspace (hd r)"
  shows "interpret_round (Suc k) st = Continue (end_compile (st\<lparr>input_ptr := r\<rparr>))"
proof -
  have t: "sscanf_s (input_ptr st) = Some '';''"
    unfolding assms(4) by (rule sscanf_s_token) (simp_all add: assms(5,6))
  have c: "consume '';'' st = st\<lparr>input_ptr := r\<rparr>"
    using is_token_colon(2) assms(5,4) by (rule consume_token)
  have l: "length '';'' < WORD_SIZE" by (simp add: WORD_SIZE_def)
  have f: "find_word st '';'' \<noteq> NULL" by (simp add: assms(3) semicolon_entry_eq NULL_def)
  have d: "deref st (find_word st '';'') =
      Some \<lparr>name = '';'', is_immediate = 1, code = Some Semicolon, data = None, data_len = 0\<rparr>"
    unfolding assms(3) using assms(1) builtin_semicolon by (rule deref_builtin)
  have "interpret_round (Suc k) st =
     (case execute_word (Suc k) (find_word st '';'') (consume '';'' st) of
        Inl e \<Rightarrow> Abort e | Inr st2 \<Rightarrow> Continue st2)"
    using t l not_number_colon(2) f d by (rule round_word_execute) simp
  also have "execute_word (Suc k) (find_word st '';'') (consume '';'' st) =
      semicolon (st\<lparr>input_ptr := r\<rparr>)"
    using d by (simp add: c [symmetric] run_prim_def)
  also have "semicolon (st\<lparr>input_ptr := r\<rparr>) = Inr (end_compile (st\<lparr>input_ptr := r\<rparr>))"
    using assms(2) by (simp add: semicolon_def)
  finally show ?thesis by simp
qed

lemma compile_item_ok:
  assumes "compile_buffer st = Some buf" "compile_pos st = int (length buf)"
  shows "compile_item v st =
     Inr (st\<lparr>compile_size := (if compile_size st \<le> compile_pos st then compile_size st * 2
                                else compile_size st),
             compile_buffer := Some (buf @ [v]), compile_pos := int (length buf) + 1\<rparr>)"
  using assms by (simp add: compile_item_def)

lemma end_round:
  assumes "\<forall>c\<in>set (input_ptr st). isspace c"
  shows "interpret_loop (Suc k) st = Inr st"
proof -
  from assms have "sscanf_s (input_ptr st) = None" by (rule sscanf_s_spaces)
  then have "interpret_round k st = Return st" by (rule round_end)
  then show ?thesis by simp
qed

section \<open>A definition of one cell\<close>

lemma open_word_cursor [simp]: "open_word nm r (st\<lparr>input_ptr := x\<rparr>) = open_word nm r st"
  by (simp add: open_word_def)

lemma open_word_sel [simp]:
  "dictionary (open_word nm r st) =
     (brk st, \<lparr>name = nm, is_immediate = 0, code = None, data = None, data_len = 0\<rparr>) # dictionary st"
  "current_word (open_word nm r st) = brk st" "compiling (open_word nm r st) = 1"
  "compile_buffer (open_word nm r st) = Some []" "compile_pos (open_word nm r st) = 0"
  "compile_size (open_word nm r st) = 64" "input_ptr (open_word nm r st) = r"
  "brk (open_word nm r st) = brk st + word_of_nat Word_block"
  "stack (open_word nm r st) = stack st" "sp (open_word nm r st) = sp st"
  "out (open_word nm r st) = out st"
  by (simp_all add: open_word_def)

lemma define_word_sel [simp]:
  "dictionary (define_word nm cells st) =
     (brk st, \<lparr>name = nm, is_immediate = 0, code = None, data = Some cells,
               data_len = int (length cells)\<rparr>) # dictionary st"
  "current_word (define_word nm cells st) = NULL" "compiling (define_word nm cells st) = 0"
  "compile_buffer (define_word nm cells st) = None"
  "input_ptr (define_word nm cells st) = []"
  "brk (define_word nm cells st) = brk st + word_of_nat Word_block"
  "stack (define_word nm cells st) = stack st" "sp (define_word nm cells st) = sp st"
  "out (define_word nm cells st) = out st"
  by (simp_all add: define_word_def)

lemma find_word_open:
  "find_word (open_word nm r st) t = (if strcasecmp nm t = 0 then brk st else find_word st t)"
  by (simp add: find_word_def)

lemma find_word_define:
  "find_word (define_word nm cells st) t = (if strcasecmp nm t = 0 then brk st else find_word st t)"
  by (simp add: find_word_def)

lemma find_word_compile [simp]:
  "find_word (st\<lparr>compile_buffer := b, compile_pos := p\<rparr>) t = find_word st t"
  by (simp add: find_word_def)

lemma wf_brk_not_NULL: "wf st \<Longrightarrow> brk st \<noteq> NULL"
proof -
  assume "wf st"
  from wfD [OF this] have "brk forth0 \<le> brk st" by blast
  then show ?thesis by (auto simp add: forth0_fields NULL_def)
qed

lemma spaced4: "spaced [a, b, c, d] = a @ CHR '' '' # b @ CHR '' '' # c @ CHR '' '' # d"
  by simp

lemma define_one:
  assumes "wf st" "compiling st = 0"
    "find_word st '':'' = colon_entry" "find_word st '';'' = semicolon_entry"
    "unat (brk st) + Word_block < 2 ^ 64"
    "is_token nm" "strcasecmp nm '';'' \<noteq> 0" "is_token t"
    and step: "\<And>k. interpret_round k (open_word nm (CHR '' '' # t @ '' ;'') st) =
       Continue ((open_word nm '' ;'' st)\<lparr>compile_buffer := Some [c], compile_pos := 1\<rparr>)"
  shows "interpret_line (4 + n) (spaced ['':'', nm, t, '';'']) st = Inr (define_word nm [c] st)"
proof -
  let ?l = "'':'' @ CHR '' '' # nm @ CHR '' '' # t @ '' ;''"
  let ?st0 = "st\<lparr>input_ptr := ?l\<rparr>"
  let ?s1 = "open_word nm (CHR '' '' # t @ '' ;'') st"
  let ?s2 = "(open_word nm '' ;'' st)\<lparr>compile_buffer := Some [c], compile_pos := 1\<rparr>"
  have nul: "CHR 0x00 \<notin> set ?l"
    using is_tokenD(5) [OF assms(6)] is_tokenD(5) [OF assms(8)] by simp
  have l: "c_str (spaced ['':'', nm, t, '';'']) = ?l"
    unfolding spaced4 using nul by (simp add: c_str_id)
  have w0: "wf ?st0" using assms(1) by (simp add: wf_cursor)
  have r1: "interpret_round (Suc k) ?st0 = Continue ?s1" for k
  proof -
    have "interpret_round (Suc k) ?st0 = Continue (open_word nm (CHR '' '' # t @ '' ;'') ?st0)"
    proof (rule colon_round [OF w0, where ws = "[]"])
      show "compiling ?st0 = 0" using assms(2) by simp
      show "find_word ?st0 '':'' = colon_entry" using assms(3) by (simp add: find_word_def)
      show "unat (brk ?st0) + Word_block < 2 ^ 64" using assms(5) by simp
      show "input_ptr ?st0 = [] @ '':'' @ CHR '' '' # nm @ CHR '' '' # t @ '' ;''" by simp
      show "\<forall>c\<in>set []. isspace c" by simp
      show "is_token nm" by (rule assms(6))
      show "CHR '' '' # t @ '' ;'' = [] \<or> isspace (hd (CHR '' '' # t @ '' ;''))" by simp
    qed
    then show ?thesis by simp
  qed
  have w1: "wf ?s1" using w0 r1 [of 0] wf_round by blast
  have w2: "wf ?s2" using w1 step [of 0] wf_round by blast
  have r3: "interpret_round (Suc k) ?s2 = Continue (end_compile (?s2\<lparr>input_ptr := []\<rparr>))" for k
  proof (rule semicolon_round [OF w2, where ws = "[CHR '' '']"])
    show "compiling ?s2 \<noteq> 0" by simp
    show "find_word ?s2 '';'' = semicolon_entry" using assms(7,4) by (simp add: find_word_open)
    show "input_ptr ?s2 = [CHR '' ''] @ '';'' @ []" by simp
    show "\<forall>c\<in>set [CHR '' '']. isspace c" by simp
    show "[] = [] \<or> isspace (hd [])" by simp
  qed
  have e: "end_compile (?s2\<lparr>input_ptr := []\<rparr>) = define_word nm [c] st"
    using wf_brk_not_NULL [OF assms(1)]
    by (simp add: end_compile_def open_word_def define_word_def)
  have r4: "interpret_loop (Suc k) (define_word nm [c] st) = Inr (define_word nm [c] st)" for k
    by (rule end_round) simp
  have "interpret_loop (Suc (Suc (Suc (Suc n)))) ?st0 = interpret_loop (Suc (Suc (Suc n))) ?s1"
    by (simp only: interpret_loop.simps(2) [of "Suc (Suc (Suc n))"] r1 round.case)
  also have "\<dots> = interpret_loop (Suc (Suc n)) ?s2"
    by (simp only: interpret_loop.simps(2) [of "Suc (Suc n)"] step round.case)
  also have "\<dots> = interpret_loop (Suc n) (define_word nm [c] st)"
    by (simp only: interpret_loop.simps(2) [of "Suc n"] r3 round.case e)
  also have "\<dots> = Inr (define_word nm [c] st)" by (rule r4)
  finally show ?thesis unfolding interpret_line_def l fuel4 .
qed

lemma define_literal:
  assumes "wf st" "compiling st = 0"
    "find_word st '':'' = colon_entry" "find_word st '';'' = semicolon_entry"
    "unat (brk st) + Word_block < 2 ^ 64"
    "is_token nm" "strcasecmp nm '';'' \<noteq> 0" "is_token t" "strtol t = (num, [])"
  shows "interpret_line (4 + n) (spaced ['':'', nm, t, '';'']) st =
           Inr (define_word nm [tag_number num] st)"
  using assms(1-8)
proof (rule define_one)
  fix k
  let ?s1 = "open_word nm (CHR '' '' # t @ '' ;'') st"
  have t: "sscanf_s (input_ptr ?s1) = Some t"
    using sscanf_s_token [OF assms(8), of "'' ;''" "[CHR '' '']"] by simp
  have c: "consume t ?s1 = ?s1\<lparr>input_ptr := '' ;''\<rparr>"
    using consume_token [OF assms(8), of "[CHR '' '']" ?s1 "'' ;''"] by simp
  have l: "length t < WORD_SIZE" using assms(8) by (rule is_tokenD)
  have "interpret_round k ?s1 =
     (case compile_item (tag_number num) (consume t ?s1) of
        Inl e \<Rightarrow> Abort e | Inr st2 \<Rightarrow> Continue st2)"
    using t l assms(9) by (rule round_number_compiling) simp
  also have "compile_item (tag_number num) (consume t ?s1) =
      Inr ((open_word nm '' ;'' st)\<lparr>compile_buffer := Some [tag_number num], compile_pos := 1\<rparr>)"
    unfolding c by (simp add: compile_item_def open_word_def)
  finally show "interpret_round k ?s1 =
      Continue ((open_word nm '' ;'' st)\<lparr>compile_buffer := Some [tag_number num], compile_pos := 1\<rparr>)"
    by simp
qed

lemma define_ref:
  assumes "wf st" "compiling st = 0"
    "find_word st '':'' = colon_entry" "find_word st '';'' = semicolon_entry"
    "unat (brk st) + Word_block < 2 ^ 64"
    "is_token nm" "strcasecmp nm '';'' \<noteq> 0" "is_token t" "\<not> is_number t"
    "strcasecmp nm t \<noteq> 0" "find_word st t = a" "deref st a = Some wd" "is_immediate wd = 0"
  shows "interpret_line (4 + n) (spaced ['':'', nm, t, '';'']) st = Inr (define_word nm [a] st)"
  using assms(1-8)
proof (rule define_one)
  fix k
  let ?s1 = "open_word nm (CHR '' '' # t @ '' ;'') st"
  have t: "sscanf_s (input_ptr ?s1) = Some t"
    using sscanf_s_token [OF assms(8), of "'' ;''" "[CHR '' '']"] by simp
  have c: "consume t ?s1 = ?s1\<lparr>input_ptr := '' ;''\<rparr>"
    using consume_token [OF assms(8), of "[CHR '' '']" ?s1 "'' ;''"] by simp
  have l: "length t < WORD_SIZE" using assms(8) by (rule is_tokenD)
  have f: "find_word ?s1 t = a" using assms(10,11) by (simp add: find_word_open)
  from wf_entry [OF assms(1,12)] have a: "a \<noteq> NULL" "a \<noteq> brk st" by auto
  have d: "deref ?s1 a = Some wd" using a(2) assms(12) by (simp add: deref_def)
  have f': "find_word ?s1 t \<noteq> NULL" and d': "deref ?s1 (find_word ?s1 t) = Some wd"
    unfolding f by (rule a, rule d)
  have c1: "compiling ?s1 \<noteq> 0" by simp
  have "interpret_round k ?s1 =
     (case compile_item (find_word ?s1 t) (consume t ?s1) of
        Inl e \<Rightarrow> Abort e | Inr st2 \<Rightarrow> Continue st2)"
    using t l assms(9) f' d' c1 assms(13) by (rule round_word_compile)
  also have "compile_item (find_word ?s1 t) (consume t ?s1) =
      Inr ((open_word nm '' ;'' st)\<lparr>compile_buffer := Some [a], compile_pos := 1\<rparr>)"
    unfolding c f by (simp add: compile_item_def open_word_def)
  finally show "interpret_round k ?s1 =
      Continue ((open_word nm '' ;'' st)\<lparr>compile_buffer := Some [a], compile_pos := 1\<rparr>)"
    by simp
qed

section \<open>Executing a definition of one cell\<close>

lemma decode_tag: "decode_number (tag_number num) = ucast num"
proof (rule bit_word_eqI)
  fix k assume k: "k < LENGTH(32)"
  then have "Suc k < 64" by simp
  with k show "bit (decode_number (tag_number num)) k \<longleftrightarrow> bit (ucast num :: 32 word) k"
    by (auto simp add: decode_number_def tag_number_def bit_simps bit_signed_drop_bit_iff
          bit_double_Suc_iff mult.commute [of num 2])
qed

lemma push_ok_state:
  assumes "0 \<le> sp st" "sp st < STACK_SIZE"
  shows "push v st = Inr (st\<lparr>stack := (stack st)(sp st := v), sp := sp st + 1\<rparr>)"
  using assms by (simp add: push_def stack_write_def)


lemma execute_literal:
  assumes "deref st w = Some wd" "code wd = None" "data wd = Some [tag_number num]"
    "data_len wd = 1" "0 \<le> sp st" "sp st < STACK_SIZE"
  shows "execute_word (Suc (Suc (Suc n))) w st =
           Inr (st\<lparr>stack := (stack st)(sp st := ucast num), sp := sp st + 1\<rparr>)"
proof -
  let ?st' = "st\<lparr>stack := (stack st)(sp st := ucast num), sp := sp st + 1\<rparr>"
  have d: "deref ?st' w = Some wd" using assms(1) by (simp add: deref_def)
  have p: "push (ucast num) st = Inr ?st'" using assms(5,6) by (rule push_ok_state)
  have "execute_word (Suc (Suc (Suc n))) w st = execute_body (Suc (Suc n)) w 0 st"
    using assms(1-3) by simp
  also have "\<dots> = execute_body (Suc n) w 1 ?st'"
    using assms(1,3,4) by (simp add: tag_number_is_number decode_tag p)
  also have "\<dots> = Inr ?st'" using d assms(4) by simp
  finally show ?thesis .
qed

lemma execute_ref:
  assumes "deref st w = Some wd" "code wd = None" "data wd = Some [a]" "data_len wd = 1"
    "\<not> is_number_cell a" "execute_word (Suc n) a st = Inr st'" "deref st' w = Some wd"
  shows "execute_word (Suc (Suc (Suc n))) w st = Inr st'"
proof -
  have "execute_word (Suc (Suc (Suc n))) w st = execute_body (Suc (Suc n)) w 0 st"
    using assms(1-3) by simp
  also have "\<dots> = execute_body (Suc n) w 1 st'"
    using assms(1,3,4,5,6) by simp
  also have "\<dots> = Inr st'" using assms(7,4) by simp
  finally show ?thesis .
qed


section \<open>Entries are kept\<close>

lemma keeps_refl: "keeps st st"
  by (simp add: keeps_def)

lemma keeps_trans: "keeps st st1 \<Longrightarrow> keeps st1 st2 \<Longrightarrow> keeps st st2"
  unfolding keeps_def by blast

lemma keepsD:
  "keeps st st' \<Longrightarrow> deref st w = Some wd \<Longrightarrow> w \<noteq> current_word st \<Longrightarrow> deref st' w = Some wd"
  unfolding keeps_def by blast

lemma keeps_same:
  "dictionary st' = dictionary st \<Longrightarrow> current_word st' = current_word st \<Longrightarrow> keeps st st'"
  by (simp add: keeps_def deref_def)

lemma keeps_frame: "compiler_state st' = compiler_state st \<Longrightarrow> keeps st st'"
  by (rule keeps_same) (simp_all add: compiler_state_def)

lemma keeps_consume: "keeps st (consume tok st)"
  by (rule keeps_same) simp_all

lemma keeps_printf: "keeps st (printf s st)"
  by (rule keeps_same) simp_all

lemma keeps_end_compile:
  assumes "wf st"
  shows "keeps st (end_compile st)"
  unfolding keeps_def
proof (intro allI impI)
  fix w wd assume d: "deref st w = Some wd" and n: "w \<noteq> current_word st"
  from wf_entry [OF assms d] have nn: "w \<noteq> NULL" by blast
  have "deref (end_compile st) w = Some wd"
  proof (cases "current_word st = NULL")
    case True
    then have "dictionary (end_compile st) = dictionary st" by (simp add: end_compile_def)
    with d show ?thesis by (simp add: deref_def)
  next
    case False
    from deref_end_compile [OF False, of w] n d show ?thesis by simp
  qed
  with nn show "deref (end_compile st) w = Some wd \<and> w \<noteq> current_word (end_compile st)"
    by simp
qed

lemma keeps_semicolon: "wf st \<Longrightarrow> semicolon st = Inr st' \<Longrightarrow> keeps st st'"
  by (auto simp add: semicolon_def keeps_printf keeps_end_compile split: if_splits)

lemma keeps_colon:
  assumes "wf st" "colon st = Inr st'"
  shows "keeps st st'"
proof (cases "sscanf_s (input_ptr st)")
  case None
  with assms show ?thesis by (auto simp: colon_def keeps_printf)
next
  case (Some nm)
  with assms(2) obtain p w st2 where
    m: "malloc_Word (st\<lparr>input_ptr := drop (length nm) p\<rparr>) = Some (w, st2)" and
    st': "st' = start_compile (st2\<lparr>dictionary :=
             (w, \<lparr>name = take (WORD_SIZE - 1) nm, is_immediate = 0, code = None,
                  data = None, data_len = 0\<rparr>) # dictionary st2, current_word := w\<rparr>)"
    by (auto simp: colon_def Let_def split: if_splits option.splits)
  from malloc_Word_SomeD [OF m] have w: "w = brk st"
    and st2: "st2 = st\<lparr>input_ptr := drop (length nm) p, brk := brk st + word_of_nat Word_block\<rparr>"
    by simp_all
  have d: "dictionary st' = (brk st, \<lparr>name = take (WORD_SIZE - 1) nm, is_immediate = 0, code = None,
                  data = None, data_len = 0\<rparr>) # dictionary st" "current_word st' = brk st"
    by (simp_all add: st' st2 w start_compile_def)
  show ?thesis
    unfolding keeps_def
  proof (intro allI impI)
    fix a wd assume a: "deref st a = Some wd"
    from wf_entry [OF assms(1) a] have "a \<noteq> brk st" by auto
    with a show "deref st' a = Some wd \<and> a \<noteq> current_word st'"
      by (simp add: deref_def d)
  qed
qed

lemma keeps_compile_item: "compile_item c st = Inr st' \<Longrightarrow> keeps st st'"
  by (rule keeps_same) (auto simp add: compile_item_def Let_def split: option.splits if_splits)

lemma keeps_run_prim:
  assumes "wf st" "run_prim p st = Inr st'"
  shows "keeps st st'"
proof (cases "p = Colon \<or> p = Semicolon")
  case True
  then show ?thesis
  proof
    assume "p = Colon"
    with assms(2) have "colon st = Inr st'" by (simp add: run_prim_def)
    with assms(1) show ?thesis by (rule keeps_colon)
  next
    assume "p = Semicolon"
    with assms(2) have "semicolon st = Inr st'" by (simp add: run_prim_def)
    with assms(1) show ?thesis by (rule keeps_semicolon)
  qed
next
  case False
  then have "p \<noteq> Colon" "p \<noteq> Semicolon" by simp_all
  with assms(2) have "compiler_state st' = compiler_state st" by (rule run_prim_frame)
  then show ?thesis by (rule keeps_frame)
qed

lemma keeps_push: "push v st = Inr st' \<Longrightarrow> keeps st st'"
  using push_frame keeps_frame by blast

lemma keeps_execute:
  "(\<forall>w st st'. wf st \<longrightarrow> execute_word n w st = Inr st' \<longrightarrow> keeps st st') \<and>
   (\<forall>w i st st'. wf st \<longrightarrow> execute_body n w i st = Inr st' \<longrightarrow> keeps st st')"
proof (induction n)
  case 0
  show ?case by simp
next
  case (Suc n)
  have IHw: "\<And>w st st'. wf st \<Longrightarrow> execute_word n w st = Inr st' \<Longrightarrow> keeps st st'"
    and IHb: "\<And>w i st st'. wf st \<Longrightarrow> execute_body n w i st = Inr st' \<Longrightarrow> keeps st st'"
    using Suc.IH by blast+
  have w: "keeps st st'" if wf: "wf st" and ex: "execute_word (Suc n) w st = Inr st'" for w st st'
  proof -
    from ex obtain wd where wd: "deref st w = Some wd"
      by (cases "deref st w") simp_all
    show ?thesis
    proof (cases "code wd")
      case (Some p)
      with ex wd have "run_prim p st = Inr st'" by simp
      with wf show ?thesis by (rule keeps_run_prim)
    next
      case None
      show ?thesis
      proof (cases "data wd = None")
        case True
        with ex wd None have "st' = st" by simp
        then show ?thesis by (simp add: keeps_refl)
      next
        case False
        with ex wd None have "execute_body n w 0 st = Inr st'" by simp
        with wf show ?thesis by (rule IHb)
      qed
    qed
  qed
  have b: "keeps st st'" if wf: "wf st" and ex: "execute_body (Suc n) w i st = Inr st'" for w i st st'
  proof -
    from ex obtain wd where wd: "deref st w = Some wd"
      by (cases "deref st w") simp_all
    show ?thesis
    proof (cases "i < data_len wd")
      case False
      with ex wd have "st' = st" by simp
      then show ?thesis by (simp add: keeps_refl)
    next
      case True
      with ex wd obtain cells where cells: "data wd = Some cells"
        by (cases "data wd") simp_all
      from ex wd True cells have inb: "\<not> (i < 0 \<or> int (length cells) \<le> i)"
        by (auto split: if_splits)
      show ?thesis
      proof (cases "is_number_cell (cells ! nat i)")
        case True
        with ex wd \<open>i < data_len wd\<close> cells inb obtain st1 where
          1: "push (decode_number (cells ! nat i)) st = Inr st1" and
          2: "execute_body n w (i + 1) st1 = Inr st'"
          by (cases "push (decode_number (cells ! nat i)) st") (simp_all add: Let_def)
        from wf 1 have "wf st1" by (rule wf_push)
        then have "keeps st1 st'" using 2 by (rule IHb)
        with keeps_push [OF 1] show ?thesis by (rule keeps_trans)
      next
        case False
        with ex wd \<open>i < data_len wd\<close> cells inb obtain st1 where
          1: "execute_word n (cells ! nat i) st = Inr st1" and
          2: "execute_body n w (i + 1) st1 = Inr st'"
          by (cases "execute_word n (cells ! nat i) st") (simp_all add: Let_def)
        from wf 1 have "wf st1" by (rule wf_execute_word)
        then have "keeps st1 st'" using 2 by (rule IHb)
        with IHw [OF wf 1] show ?thesis by (rule keeps_trans)
      qed
    qed
  qed
  from w b show ?case by blast
qed

lemma keeps_execute_word: "wf st \<Longrightarrow> execute_word n w st = Inr st' \<Longrightarrow> keeps st st'"
  using keeps_execute by blast

lemma keeps_round:
  assumes "wf st" "interpret_round n st = Continue st' \<or> interpret_round n st = Return st'"
  shows "keeps st st'"
proof (cases "sscanf_s (input_ptr st)")
  case None
  then have "interpret_round n st = Return st" by (rule round_end)
  with assms show ?thesis by (auto simp add: keeps_refl)
next
  case (Some tok)
  show ?thesis
  proof (cases "length tok < WORD_SIZE")
    case False
    with Some have "interpret_round n st = Abort (Undefined BufferOverrun)"
      by (intro round_too_long) (simp_all add: not_less)
    with assms(2) show ?thesis by simp
  next
    case len: True
    have wfc: "wf (consume tok st)" using assms(1) by (simp add: wf_consume)
    have kc: "keeps st (consume tok st)" by (rule keeps_consume)
    show ?thesis
    proof (cases "is_number tok")
      case True
      then obtain num where num: "strtol tok = (num, [])"
        by (cases "strtol tok") (simp add: is_number_def)
      show ?thesis
      proof (cases "compiling st = 0")
        case True
        from round_number_interactive [OF Some len num True, of n] assms(2)
        have "push (ucast num) (consume tok st) = Inr st'"
          by (cases "push (ucast num) (consume tok st)") auto
        then have "keeps (consume tok st) st'" by (rule keeps_push)
        with kc show ?thesis by (rule keeps_trans)
      next
        case False
        from round_number_compiling [OF Some len num False, of n] assms(2)
        have "compile_item (tag_number num) (consume tok st) = Inr st'"
          by (cases "compile_item (tag_number num) (consume tok st)") auto
        then have "keeps (consume tok st) st'" by (rule keeps_compile_item)
        with kc show ?thesis by (rule keeps_trans)
      qed
    next
      case nn: False
      show ?thesis
      proof (cases "find_word st tok = NULL")
        case True
        let ?p = "printf (''Unknown word: '' @ tok @ [CHR 0x0A]) (consume tok st)"
        from round_unknown [OF Some len nn True, of n] assms(2)
        have st': "st' = (if compiling st \<noteq> 0 then end_compile ?p else ?p)"
          by simp
        have kp: "keeps st ?p" using kc keeps_printf by (rule keeps_trans)
        have "wf ?p" using assms(1) by (simp add: wf_printf wf_consume)
        then have "keeps ?p (end_compile ?p)" by (rule keeps_end_compile)
        with kp have "keeps st (end_compile ?p)" by (rule keeps_trans)
        with kp show ?thesis unfolding st' by simp
      next
        case False
        from find_word_deref [OF False] obtain wd where wd: "deref st (find_word st tok) = Some wd"
          by blast
        show ?thesis
        proof (cases "compiling st \<noteq> 0 \<and> is_immediate wd = 0")
          case True
          then have c: "compiling st \<noteq> 0" and i: "is_immediate wd = 0" by simp_all
          from round_word_compile [OF Some len nn False wd c i, of n] assms(2)
          have ci: "compile_item (find_word st tok) (consume tok st) = Inr st'"
            by (cases "compile_item (find_word st tok) (consume tok st)") auto
          then have "keeps (consume tok st) st'" by (rule keeps_compile_item)
          with kc show ?thesis by (rule keeps_trans)
        next
          case False
          then have "compiling st = 0 \<or> is_immediate wd \<noteq> 0" by blast
          from round_word_execute [OF Some len nn \<open>find_word st tok \<noteq> NULL\<close> wd this, of n] assms(2)
          have "execute_word n (find_word st tok) (consume tok st) = Inr st'"
            by (cases "execute_word n (find_word st tok) (consume tok st)") auto
          with wfc have "keeps (consume tok st) st'" by (rule keeps_execute_word)
          with kc show ?thesis by (rule keeps_trans)
        qed
      qed
    qed
  qed
qed

lemma keeps_loop:
  "reach st \<Longrightarrow> interpret_loop n st = Inr st' \<Longrightarrow> keeps st st'"
proof (induction n arbitrary: st)
  case 0
  then show ?case by simp
next
  case (Suc n)
  from Suc.prems(1) have wf: "wf st" by (rule reach_wf)
  show ?case
  proof (cases "interpret_round n st")
    case (Continue st1)
    with Suc.prems(1) have "reach st1" by (rule reach.continue)
    moreover from Suc.prems(2) Continue have "interpret_loop n st1 = Inr st'" by simp
    ultimately have "keeps st1 st'" by (rule Suc.IH)
    moreover from wf Continue have "keeps st st1" using keeps_round by blast
    ultimately show ?thesis using keeps_trans by blast
  next
    case (Return st1)
    with Suc.prems(2) have "st1 = st'" by simp
    with wf Return show ?thesis using keeps_round by blast
  next
    case (Abort e)
    with Suc.prems(2) show ?thesis by simp
  qed
qed

lemma keeps_interpret_line:
  assumes "reach st" "interpret_line n l st = Inr st'"
  shows "keeps st st'"
proof -
  have "keeps st (st\<lparr>input_ptr := c_str l\<rparr>)" by (rule keeps_same) simp_all
  moreover have "keeps (st\<lparr>input_ptr := c_str l\<rparr>) st'"
    using reach.line [OF assms(1)] assms(2) unfolding interpret_line_def by (rule keeps_loop)
  ultimately show ?thesis by (rule keeps_trans)
qed

lemma keeps_interpret_lines:
  "reach st \<Longrightarrow> interpret_lines n ls st = Inr st' \<Longrightarrow> keeps st st'"
proof (induction ls arbitrary: st)
  case Nil
  then show ?case by (simp add: keeps_refl)
next
  case (Cons l ls)
  from Cons.prems(2) obtain st1 where 1: "interpret_line n l st = Inr st1"
    and 2: "interpret_lines n ls st1 = Inr st'"
    by (cases "interpret_line n l st") simp_all
  from Cons.prems(1) 1 have "reach st1" by (rule reach_interpret_line)
  then have "keeps st1 st'" using 2 by (rule Cons.IH)
  with keeps_interpret_line [OF Cons.prems(1) 1] show ?case by (rule keeps_trans)
qed

section \<open>Decimal numerals\<close>











section \<open>Unknown words\<close>

text \<open>
  An unknown token that the buffer \<^verbatim>\<open>word\<close> holds: the loop writes \<^verbatim>\<open>Unknown word: \<close> and
  the token and returns at once, the data stack as it was and the Compiling state left; the
  next line is interpreted as it would have been from the state before, with the message
  written (and, in the Compiling state, the definition ended).
\<close>

lemma short_unknown_token_recovers:
  assumes "sscanf_s (input_ptr st) = Some tok" "length tok < WORD_SIZE"
    "\<not> is_number tok" "find_word st tok = NULL"
  shows "\<exists>st'. interpret_loop (Suc n) st = Inr st' \<and>
           st' = (if compiling st \<noteq> 0
                  then end_compile (printf (''Unknown word: '' @ tok @ [CHR 0x0A]) (consume tok st))
                  else printf (''Unknown word: '' @ tok @ [CHR 0x0A]) (consume tok st)) \<and>
           out st' = out st @ ''Unknown word: '' @ tok @ [CHR 0x0A] \<and>
           data_stack st' = data_stack st \<and> compiling st' = 0 \<and>
           (\<forall>m l. interpret_line m l st' =
                  interpret_line m l (if compiling st \<noteq> 0
                     then end_compile (printf (''Unknown word: '' @ tok @ [CHR 0x0A]) st)
                     else printf (''Unknown word: '' @ tok @ [CHR 0x0A]) st))"
proof -
  let ?msg = "''Unknown word: '' @ tok @ [CHR 0x0A]"
  let ?st' = "if compiling st \<noteq> 0 then end_compile (printf ?msg (consume tok st))
              else printf ?msg (consume tok st)"
  have "interpret_round n st = Return ?st'"
    using assms by (rule round_unknown)
  then have 1: "interpret_loop (Suc n) st = Inr ?st'" by simp
  have 2: "out ?st' = out st @ ?msg" by simp
  have 3: "data_stack ?st' = data_stack st" by (rule data_stack_cong) simp_all
  have 4: "\<forall>m l. interpret_line m l ?st' =
                  interpret_line m l (if compiling st \<noteq> 0
                     then end_compile (printf ?msg st) else printf ?msg st)"
    by (simp add: interpret_line_forgets_cursor)
  have 5: "compiling ?st' = 0" by simp
  from 1 2 3 4 5 show ?thesis by blast
qed

text \<open>
  Claim C7. An unknown token should be reported and end the line, whatever the line. The
  loop reads the token with \<^verbatim>\<open>sscanf(input_ptr, "%s", word)\<close>, with no field width, into
  \<^verbatim>\<open>char word[WORD_SIZE]\<close>: a token of 32 characters or more (a line holds up to 255) is
  written past the end of the array before the loop looks at it, and nothing is reported,
  in the Interpreting state and in the Compiling state alike. With one character less the
  same line is handled as the claim says, and the next line is interpreted.
\<close>

theorem long_unknown_token_overruns:
  "length ''ABCDEFGHIJKLMNOPQRSTUVWXYZABCDEF'' = 32 \<and>
   \<not> is_number ''ABCDEFGHIJKLMNOPQRSTUVWXYZABCDEF'' \<and>
   find_word forth0 ''ABCDEFGHIJKLMNOPQRSTUVWXYZABCDEF'' = NULL \<and>
   interpret_line (2 + n) ''ABCDEFGHIJKLMNOPQRSTUVWXYZABCDEF 1 +'' forth0 =
     Inl (Undefined BufferOverrun) \<and>
   interpret_line (4 + n) '': FOO 1 ABCDEFGHIJKLMNOPQRSTUVWXYZABCDEF'' forth0 =
     Inl (Undefined BufferOverrun) \<and>
   map_sum id (\<lambda>st. (data_stack st, out st))
     (interpret_lines (4 + n) [''ABCDEFGHIJKLMNOPQRSTUVWXYZABCDE 1 +'', ''2 3 +''] forth0) =
     Inr ([5], ''Unknown word: ABCDEFGHIJKLMNOPQRSTUVWXYZABCDE'' @ [CHR 0x0A])"
  by (simp add: fuel2 fuel4 forth_eval is_number_def add_def upt_rec)

section \<open>An unknown word inside a definition\<close>




section \<open>Immediate and non-immediate words inside a definition\<close>

lemma find_word_from_append_cases:
  "find_word_from (us @ d) nm \<in> fst ` set us \<or> find_word_from (us @ d) nm = find_word_from d nm"
proof (induction us)
  case Nil
  show ?case by simp
next
  case (Cons e us)
  obtain a wd where e: "e = (a, wd)" by (cases e)
  show ?case
  proof (cases "strcasecmp (name wd) nm = 0")
    case True
    then show ?thesis by (simp add: e)
  next
    case False
    with Cons show ?thesis unfolding e by (auto simp add: image_iff)
  qed
qed

lemma wf_bodies:
  assumes "wf st" "deref st w = Some wd" "data wd = Some cells"
  shows "semicolon_entry \<notin> set cells"
proof -
  from wfD [OF assms(1)] obtain us where us: "dictionary st = us @ dictionary forth0"
    and ent: "\<And>a wd. (a, wd) \<in> set us \<Longrightarrow> is_immediate wd = 0 \<and> code wd = None \<and>
           brk forth0 \<le> a \<and> a < brk st \<and> \<not> is_number_cell a \<and>
           (\<forall>cells. data wd = Some cells \<longrightarrow>
              semicolon_entry \<notin> set cells \<and> data_len wd = int (length cells))"
    by blast
  from assms(2) have "(w, wd) \<in> set (dictionary st)" unfolding deref_def by (rule map_of_SomeD)
  with us have "(w, wd) \<in> set us \<or> (w, wd) \<in> set (dictionary forth0)" by auto
  then show ?thesis
  proof
    assume "(w, wd) \<in> set us"
    from ent [OF this] assms(3) show ?thesis by blast
  next
    assume "(w, wd) \<in> set (dictionary forth0)"
    then have "data wd = None" by (auto simp add: dictionary_forth0)
    with assms(3) show ?thesis by simp
  qed
qed

lemma wf_colon_word:
  assumes "wf st"
  shows "\<exists>wd. deref st (find_word st '':'') = Some wd \<and> is_immediate wd = 0"
proof -
  from wfD [OF assms(1)] obtain us where us: "dictionary st = us @ dictionary forth0"
    and ent: "\<And>a wd. (a, wd) \<in> set us \<Longrightarrow> is_immediate wd = 0 \<and> code wd = None \<and>
           brk forth0 \<le> a \<and> a < brk st \<and> \<not> is_number_cell a \<and>
           (\<forall>cells. data wd = Some cells \<longrightarrow>
              semicolon_entry \<notin> set cells \<and> data_len wd = int (length cells))"
    by blast
  let ?w = "find_word st '':''"
  have "?w \<in> fst ` set us \<or> ?w = find_word_from (dictionary forth0) '':''"
    unfolding find_word_def us by (rule find_word_from_append_cases)
  then have w: "?w \<noteq> NULL \<and> ?w \<noteq> semicolon_entry"
  proof
    assume "?w \<in> fst ` set us"
    then obtain wd where "(?w, wd) \<in> set us" by auto
    from ent [OF this] have "brk forth0 \<le> ?w" by blast
    then show ?thesis by (auto simp add: forth0_fields NULL_def semicolon_entry_eq)
  next
    assume "?w = find_word_from (dictionary forth0) '':''"
    then show ?thesis by (simp add: builtin_colon NULL_def semicolon_entry_eq)
  qed
  then have "?w \<noteq> NULL" by blast
  from find_word_deref [OF this] obtain wd where d: "deref st ?w = Some wd" by blast
  from wf_deref_cases [OF assms d] w have "is_immediate wd = 0" by blast
  with d show ?thesis by blast
qed

text \<open>
  Claim C10. \<^verbatim>\<open>init_forth\<close> registers \<^verbatim>\<open>:\<close> with the immediate flag 0. In every state that
  a run reaches inside a definition, when the loop reads the token \<^verbatim>\<open>:\<close> it goes on to the
  next token with the address that \<^verbatim>\<open>:\<close> resolves to appended to the compile buffer as a
  word reference (an even cell), and nothing else changed but the cursor: no entry is added
  to the dictionary, the entry under definition is the same, the state is still Compiling.
\<close>

theorem nested_colon_is_compiled:
  assumes "reach st" "compiling st \<noteq> 0" "sscanf_s (input_ptr st) = Some '':''"
  shows "\<exists>st' buf wd. interpret_round n st = Continue st' \<and>
           deref st (find_word st '':'') = Some wd \<and> is_immediate wd = 0 \<and>
           \<not> is_number_cell (find_word st '':'') \<and>
           compile_buffer st = Some buf \<and>
           compile_buffer st' = Some (buf @ [find_word st '':'']) \<and>
           compile_pos st' = compile_pos st + 1 \<and>
           dictionary st' = dictionary st \<and> current_word st' = current_word st \<and>
           compiling st' = compiling st \<and> brk st' = brk st \<and>
           stack st' = stack st \<and> sp st' = sp st \<and> out st' = out st \<and>
           deref forth0 (find_word forth0 '':'') =
             Some \<lparr>name = '':'', is_immediate = 0, code = Some Colon, data = None, data_len = 0\<rparr>"
proof -
  from assms(1) have wf: "wf st" by (rule reach_wf)
  from wf_colon_word [OF wf] obtain wd
    where d: "deref st (find_word st '':'') = Some wd" and i: "is_immediate wd = 0" by blast
  from wf_entry [OF wf d] have nn: "find_word st '':'' \<noteq> NULL"
    and ev: "\<not> is_number_cell (find_word st '':'')" by blast+
  from compiling_head [OF wf assms(2)] obtain buf
    where b: "compile_buffer st = Some buf" "compile_pos st = int (length buf)" by blast
  let ?st' = "(consume '':'' st)\<lparr>compile_size :=
       (if compile_size (consume '':'' st) \<le> compile_pos (consume '':'' st)
        then compile_size (consume '':'' st) * 2 else compile_size (consume '':'' st)),
     compile_buffer := Some (buf @ [find_word st '':'']), compile_pos := int (length buf) + 1\<rparr>"
  have l: "length '':'' < WORD_SIZE" by (simp add: WORD_SIZE_def)
  have "interpret_round n st =
     (case compile_item (find_word st '':'') (consume '':'' st) of
        Inl e \<Rightarrow> Abort e | Inr st2 \<Rightarrow> Continue st2)"
    using assms(3) l not_number_colon(1) nn d assms(2) i by (rule round_word_compile)
  also have "compile_item (find_word st '':'') (consume '':'' st) = Inr ?st'"
    by (rule compile_item_ok) (simp_all add: b)
  finally have 1: "interpret_round n st = Continue ?st'" by simp
  have 2: "compile_buffer ?st' = Some (buf @ [find_word st '':''])"
    "compile_pos ?st' = compile_pos st + 1"
    "dictionary ?st' = dictionary st" "current_word ?st' = current_word st"
    "compiling ?st' = compiling st" "brk ?st' = brk st"
    "stack ?st' = stack st" "sp ?st' = sp st" "out ?st' = out st"
    by (simp_all add: b)
  have 3: "deref forth0 (find_word forth0 '':'') =
             Some \<lparr>name = '':'', is_immediate = 0, code = Some Colon, data = None, data_len = 0\<rparr>"
    unfolding find_word_def deref_def builtin_colon ..
  from 1 d i ev b(1) 2 3 show ?thesis by blast
qed

theorem nested_colon_is_compiled_witness:
  "(let st = (the_state (interpret_line 2 '': A'' forth0))\<lparr>input_ptr := '': ;''\<rparr>
    in reach st \<and> compiling st \<noteq> 0 \<and> sscanf_s (input_ptr st) = Some '':'' \<and>
       find_word st '':'' = 5696 \<and> compile_buffer st = Some [] \<and>
       (\<exists>st' buf wd. interpret_round 0 st = Continue st' \<and>
           deref st (find_word st '':'') = Some wd \<and> is_immediate wd = 0 \<and>
           \<not> is_number_cell (find_word st '':'') \<and>
           compile_buffer st = Some buf \<and>
           compile_buffer st' = Some (buf @ [find_word st '':'']) \<and>
           compile_pos st' = compile_pos st + 1 \<and>
           dictionary st' = dictionary st \<and> current_word st' = current_word st \<and>
           compiling st' = compiling st \<and> brk st' = brk st \<and>
           stack st' = stack st \<and> sp st' = sp st \<and> out st' = out st \<and>
           deref forth0 (find_word forth0 '':'') =
             Some \<lparr>name = '':'', is_immediate = 0, code = Some Colon, data = None, data_len = 0\<rparr>)) \<and>
   map_sum id (\<lambda>st. (body_of st ''A'', compiling st, find_word st ''A''))
     (interpret_line 4 '': A : ;'' forth0) = Inr (Some (Some [5696], 1), 0, 5856)"
proof -
  define st0 where "st0 = the_state (interpret_line 2 '': A'' forth0)"
  define st where "st = st0\<lparr>input_ptr := '': ;''\<rparr>"
  have n2: "(2::nat) = Suc (Suc 0)" by simp
  have n4: "(4::nat) = Suc (Suc (Suc (Suc 0)))" by simp
  have r: "interpret_line 2 '': A'' forth0 = Inr st0"
    unfolding st0_def n2 by (simp add: forth_eval the_state_def)
  have "reach st0" using reach.start r by (rule reach_interpret_line)
  then have "reach (st0\<lparr>input_ptr := c_str '': ;''\<rparr>)" by (rule reach.line)
  then have h1: "reach st" unfolding st_def by (simp add: c_str_def)
  have h: "compiling st \<noteq> 0" "sscanf_s (input_ptr st) = Some '':''"
    unfolding st_def st0_def n2 by (simp_all add: forth_eval the_state_def)
  have b: "find_word st '':'' = 5696" "compile_buffer st = Some []"
    unfolding st_def st0_def n2 by (simp_all add: forth_eval the_state_def)
  have e: "map_sum id (\<lambda>st. (body_of st ''A'', compiling st, find_word st ''A''))
     (interpret_line 4 '': A : ;'' forth0) = Inr (Some (Some [5696], 1), 0, 5856)"
    unfolding n4 by (simp add: forth_eval body_of_def)
  from nested_colon_is_compiled [OF h1 h, of 0] h1 h b e show ?thesis
    unfolding Let_def st_def [symmetric] st0_def [symmetric] by blast
qed

text \<open>
  Claim C6. In every state that a run reaches inside a definition, when the loop reads the
  token \<^verbatim>\<open>;\<close> and \<^verbatim>\<open>;\<close> resolves to an immediate word, the word is executed in that round:
  the round ends with the definition closed by \<^verbatim>\<open>end_compile\<close>, the body of the entry the
  cells compiled before the \<^verbatim>\<open>;\<close> and no more. The entry \<^verbatim>\<open>;\<close> resolves to is the built-in
  one, and its address is in no cell of the buffer and of no body in the dictionary, before
  and after the round.
\<close>

theorem immediate_word_is_executed:
  assumes "reach st" "compiling st \<noteq> 0" "sscanf_s (input_ptr st) = Some '';''"
    "deref st (find_word st '';'') = Some wd" "is_immediate wd \<noteq> 0"
  shows "\<exists>st' buf cw. interpret_round (Suc n) st = Continue st' \<and>
           st' = end_compile (consume '';'' st) \<and> compiling st' = 0 \<and>
           compile_buffer st = Some buf \<and> deref st (current_word st) = Some cw \<and>
           deref st' (current_word st) = Some (cw\<lparr>data := Some buf, data_len := int (length buf)\<rparr>) \<and>
           find_word st '';'' = semicolon_entry \<and> code wd = Some Semicolon \<and>
           semicolon_entry \<notin> set buf \<and>
           (\<forall>w e cells. deref st w = Some e \<longrightarrow> data e = Some cells \<longrightarrow> semicolon_entry \<notin> set cells) \<and>
           (\<forall>w e cells. deref st' w = Some e \<longrightarrow> data e = Some cells \<longrightarrow> semicolon_entry \<notin> set cells)"
proof -
  from assms(1) have wf: "wf st" by (rule reach_wf)
  from wf_deref_cases [OF wf assms(4)] assms(5)
  have s: "find_word st '';'' = semicolon_entry" "code wd = Some Semicolon" by blast+
  let ?st' = "end_compile (consume '';'' st)"
  from compiling_head [OF wf assms(2)] obtain cw rest buf
    where d: "dictionary st = (current_word st, cw) # rest"
      and b: "compile_buffer st = Some buf" "compile_pos st = int (length buf)"
      and nn: "current_word st \<noteq> NULL" by blast
  from wf_entry [OF wf assms(4)] have fn: "find_word st '';'' \<noteq> NULL" by blast
  have l: "length '';'' < WORD_SIZE" by (simp add: WORD_SIZE_def)
  have im: "compiling st = 0 \<or> is_immediate wd \<noteq> 0" using assms(5) by simp
  have "interpret_round (Suc n) st =
     (case execute_word (Suc n) (find_word st '';'') (consume '';'' st) of
        Inl e \<Rightarrow> Abort e | Inr st2 \<Rightarrow> Continue st2)"
    using assms(3) l not_number_colon(2) fn assms(4) im by (rule round_word_execute)
  also have "execute_word (Suc n) (find_word st '';'') (consume '';'' st) = semicolon (consume '';'' st)"
    using assms(4) s(2) by (simp add: run_prim_def)
  also have "\<dots> = Inr ?st'" using assms(2) by (simp add: semicolon_def)
  finally have 1: "interpret_round (Suc n) st = Continue ?st'" by simp
  have 2: "compiling ?st' = 0" by simp
  from d have "dictionary (consume '';'' st) = (current_word (consume '';'' st), cw) # rest" by simp
  moreover from nn have "current_word (consume '';'' st) \<noteq> NULL" by simp
  ultimately have "dictionary ?st' =
      (current_word (consume '';'' st), cw\<lparr>data := compile_buffer (consume '';'' st),
         data_len := compile_pos (consume '';'' st)\<rparr>) # rest"
    by (rule end_compile_head)
  with b have "dictionary ?st' =
      (current_word st, cw\<lparr>data := Some buf, data_len := int (length buf)\<rparr>) # rest" by simp
  then have 3: "deref ?st' (current_word st) = Some (cw\<lparr>data := Some buf, data_len := int (length buf)\<rparr>)"
    by (rule deref_head)
  from d have 4: "deref st (current_word st) = Some cw" by (rule deref_head)
  from wfD [OF wf] b(1) have 5: "semicolon_entry \<notin> set buf" by blast
  have 6: "\<forall>w e cells. deref st w = Some e \<longrightarrow> data e = Some cells \<longrightarrow> semicolon_entry \<notin> set cells"
    using wf_bodies [OF wf] by blast
  from wf 1 have "wf ?st'" using wf_round by blast
  then have 7: "\<forall>w e cells. deref ?st' w = Some e \<longrightarrow> data e = Some cells \<longrightarrow> semicolon_entry \<notin> set cells"
    using wf_bodies by blast
  from 1 2 b(1) 4 3 s 5 6 7 show ?thesis by blast
qed

theorem immediate_word_is_executed_witness:
  "(let st = (the_state (interpret_line 3 '': X 1'' forth0))\<lparr>input_ptr := '';''\<rparr>;
        wd = \<lparr>name = '';'', is_immediate = 1, code = Some Semicolon, data = None, data_len = 0\<rparr>
    in reach st \<and> compiling st \<noteq> 0 \<and> sscanf_s (input_ptr st) = Some '';'' \<and>
       deref st (find_word st '';'') = Some wd \<and> is_immediate wd \<noteq> 0 \<and>
       compile_buffer st = Some [3] \<and>
       (\<exists>st' buf cw. interpret_round (Suc 0) st = Continue st' \<and>
           st' = end_compile (consume '';'' st) \<and> compiling st' = 0 \<and>
           compile_buffer st = Some buf \<and> deref st (current_word st) = Some cw \<and>
           deref st' (current_word st) = Some (cw\<lparr>data := Some buf, data_len := int (length buf)\<rparr>) \<and>
           find_word st '';'' = semicolon_entry \<and> code wd = Some Semicolon \<and>
           semicolon_entry \<notin> set buf \<and>
           (\<forall>w e cells. deref st w = Some e \<longrightarrow> data e = Some cells \<longrightarrow> semicolon_entry \<notin> set cells) \<and>
           (\<forall>w e cells. deref st' w = Some e \<longrightarrow> data e = Some cells \<longrightarrow> semicolon_entry \<notin> set cells))) \<and>
   map_sum id (\<lambda>st. (body_of st ''X'', compiling st))
     (interpret_line 5 '': X 1 ;'' forth0) = Inr (Some (Some [3], 1), 0)"
proof -
  define st0 where "st0 = the_state (interpret_line 3 '': X 1'' forth0)"
  define st where "st = st0\<lparr>input_ptr := '';''\<rparr>"
  define wd where "wd = \<lparr>name = '';'', is_immediate = 1, code = Some Semicolon,
     data = None :: ptr list option, data_len = 0\<rparr>"
  have n3: "(3::nat) = Suc (Suc (Suc 0))" by simp
  have n5: "(5::nat) = Suc (Suc (Suc (Suc (Suc 0))))" by simp
  have r: "interpret_line 3 '': X 1'' forth0 = Inr st0"
    unfolding st0_def n3 by (simp add: forth_eval the_state_def)
  have "reach st0" using reach.start r by (rule reach_interpret_line)
  then have "reach (st0\<lparr>input_ptr := c_str '';''\<rparr>)" by (rule reach.line)
  then have h1: "reach st" unfolding st_def by (simp add: c_str_def)
  have h: "compiling st \<noteq> 0" "sscanf_s (input_ptr st) = Some '';''"
    "deref st (find_word st '';'') = Some wd" "is_immediate wd \<noteq> 0"
    unfolding st_def st0_def wd_def n3 by (simp_all add: forth_eval the_state_def)
  have b: "compile_buffer st = Some [3]"
    unfolding st_def st0_def n3 by (simp_all add: forth_eval the_state_def)
  have e: "map_sum id (\<lambda>st. (body_of st ''X'', compiling st))
     (interpret_line 5 '': X 1 ;'' forth0) = Inr (Some (Some [3], 1), 0)"
    unfolding n5 by (simp add: forth_eval body_of_def)
  from immediate_word_is_executed [OF h1 h, of 0] h1 h b e show ?thesis
    unfolding Let_def st_def [symmetric] st0_def [symmetric] wd_def [symmetric] by blast
qed

section \<open>Literals in a body\<close>



section \<open>Redefinition\<close>

lemma deref_define_word:
  assumes "wf st" "deref st w = Some wd"
  shows "deref (define_word nm cells st) w = Some wd"
proof -
  from wf_entry [OF assms] have "w \<noteq> brk st" by auto
  with assms(2) show ?thesis by (simp add: deref_def)
qed

text \<open>
  Claim C1. Let the name \<^verbatim>\<open>F\<close> resolve to an entry, at the address \<open>a\<close>, in a state that a run
  reaches outside a definition. The line \<^verbatim>\<open>: G F ;\<close> gives \<^verbatim>\<open>G\<close> a body of one cell, the
  address \<open>a\<close>: the reference is taken when the body is compiled. Whatever lines are
  interpreted after it, and after a line \<^verbatim>\<open>: F y ;\<close> that defines \<^verbatim>\<open>F\<close> again: the name \<^verbatim>\<open>F\<close>
  resolves to the new entry, at another address, whose body is the literal \<open>y\<close> and which
  pushes \<open>y\<close> when it is executed; the entry
  of \<^verbatim>\<open>G\<close> still has the body \<open>a\<close>, the entry at \<open>a\<close> is as it was when \<^verbatim>\<open>G\<close> was compiled, and
  executing \<^verbatim>\<open>G\<close> executes the entry at \<open>a\<close>. (\<^verbatim>\<open>:\<close> and \<^verbatim>\<open>;\<close> are taken not to be redefined
  and \<^verbatim>\<open>malloc\<close> not to fail.)
\<close>

theorem shadowing_early_binding:
  assumes "reach st" "compiling st = 0"
    "find_word st '':'' = colon_entry" "find_word st '';'' = semicolon_entry"
    "unat (brk st) + Word_block < 2 ^ 64"
    "is_token F" "\<not> is_number F" "strcasecmp F '';'' \<noteq> 0"
    "find_word st F = a" "deref st a = Some fd" "is_immediate fd = 0"
    "is_token G" "strcasecmp G '';'' \<noteq> 0" "strcasecmp G F \<noteq> 0"
    "interpret_lines m ls (define_word G [a] st) = Inr s"
    "compiling s = 0"
    "find_word s '':'' = colon_entry" "find_word s '';'' = semicolon_entry"
    "unat (brk s) + Word_block < 2 ^ 64"
    "is_token y" "strtol y = (ny, [])"
  shows "\<exists>st'. interpret_line (4 + n) (spaced ['':'', G, F, '';'']) st = Inr (define_word G [a] st) \<and>
           interpret_line (4 + n) (spaced ['':'', F, y, '';'']) s = Inr st' \<and>
           find_word st' F = brk s \<and> brk s \<noteq> a \<and>
           deref st' (brk s) =
             Some \<lparr>name = F, is_immediate = 0, code = None, data = Some [tag_number ny],
                   data_len = 1\<rparr> \<and>
           deref st' (brk st) =
             Some \<lparr>name = G, is_immediate = 0, code = None, data = Some [a], data_len = 1\<rparr> \<and>
           deref st' a = Some fd \<and>
           (\<forall>k. execute_word (Suc (Suc k)) (brk st) st' =
                  (case execute_word k a st' of
                     Inl e \<Rightarrow> Inl e | Inr st'' \<Rightarrow> execute_body k (brk st) 1 st'')) \<and>
           (\<forall>k. 0 \<le> sp st' \<longrightarrow> sp st' < STACK_SIZE \<longrightarrow>
                execute_word (Suc (Suc (Suc k))) (brk s) st' =
                  Inr (st'\<lparr>stack := (stack st')(sp st' := ucast ny), sp := sp st' + 1\<rparr>))"
proof -
  let ?st2 = "define_word G [a] st"
  let ?st' = "define_word F [tag_number ny] s"
  let ?gd = "\<lparr>name = G, is_immediate = 0, code = None, data = Some [a], data_len = 1\<rparr>"
  from assms(1) have wf: "wf st" by (rule reach_wf)
  have 1: "interpret_line (4 + n) (spaced ['':'', G, F, '';'']) st = Inr ?st2"
    using wf assms(2-5,12,13,6,7,14,9,10,11) by (rule define_ref)
  from assms(1) 1 have r2: "reach ?st2" by (rule reach_interpret_line)
  from r2 assms(15) have rs: "reach s" by (rule reach_interpret_lines)
  then have wfs: "wf s" by (rule reach_wf)
  from r2 assms(15) have k: "keeps ?st2 s" by (rule keeps_interpret_lines)
  have 2: "interpret_line (4 + n) (spaced ['':'', F, y, '';'']) s = Inr ?st'"
    using wfs assms(16-19,6,8,20,21) by (rule define_literal)
  have 3: "find_word ?st' F = brk s" by (simp add: find_word_define)
  have g2: "deref ?st2 (brk st) = Some ?gd" by (simp add: deref_def)
  have "brk st \<noteq> current_word ?st2" using wf_brk_not_NULL [OF wf] by simp
  with k g2 have gs: "deref s (brk st) = Some ?gd" by (rule keepsD)
  from wfs gs have 6: "deref ?st' (brk st) = Some ?gd" by (rule deref_define_word)
  from wf_entry [OF wf assms(10)] have an: "a \<noteq> NULL" and ae: "\<not> is_number_cell a" by blast+
  from wf assms(10) have "deref ?st2 a = Some fd" by (rule deref_define_word)
  moreover from an have "a \<noteq> current_word ?st2" by simp
  ultimately have as: "deref s a = Some fd" using k keepsD by blast
  from wfs as have 7: "deref ?st' a = Some fd" by (rule deref_define_word)
  from wf_entry [OF wfs as] have 4: "brk s \<noteq> a" by auto
  have 5: "deref ?st' (brk s) =
             Some \<lparr>name = F, is_immediate = 0, code = None, data = Some [tag_number ny],
                   data_len = 1\<rparr>"
    by (simp add: deref_def)
  have 8: "\<forall>k. execute_word (Suc (Suc k)) (brk st) ?st' =
                  (case execute_word k a ?st' of
                     Inl e \<Rightarrow> Inl e | Inr st'' \<Rightarrow> execute_body k (brk st) 1 st'')"
    using 6 ae by (simp split: sum.splits)
  have 9: "\<forall>k. 0 \<le> sp ?st' \<longrightarrow> sp ?st' < STACK_SIZE \<longrightarrow>
                execute_word (Suc (Suc (Suc k))) (brk s) ?st' =
                  Inr (?st'\<lparr>stack := (stack ?st')(sp ?st' := ucast ny), sp := sp ?st' + 1\<rparr>)"
  proof (intro allI impI)
    fix k assume a: "0 \<le> sp ?st'" "sp ?st' < STACK_SIZE"
    have c: "code \<lparr>name = F, is_immediate = 0, code = None, data = Some [tag_number ny],
                   data_len = 1\<rparr> = None"
      "data \<lparr>name = F, is_immediate = 0, code = None, data = Some [tag_number ny],
                   data_len = 1\<rparr> = Some [tag_number ny]"
      "data_len \<lparr>name = F, is_immediate = 0, code = None, data = Some [tag_number ny],
                   data_len = 1\<rparr> = 1"
      by simp_all
    from 5 c a show "execute_word (Suc (Suc (Suc k))) (brk s) ?st' =
                  Inr (?st'\<lparr>stack := (stack ?st')(sp ?st' := ucast ny), sp := sp ?st' + 1\<rparr>)"
      by (rule execute_literal)
  qed
  from 1 2 3 4 5 6 7 8 9 show ?thesis by blast
qed

theorem shadowing_early_binding_witness:
  "(let st = the_state (interpret_line 4 '': F 1 ;'' forth0);
        fd = \<lparr>name = ''F'', is_immediate = 0, code = None, data = Some [3], data_len = 1\<rparr>
    in reach st \<and> compiling st = 0 \<and>
       find_word st '':'' = colon_entry \<and> find_word st '';'' = semicolon_entry \<and>
       unat (brk st) + Word_block < 2 ^ 64 \<and>
       is_token ''F'' \<and> \<not> is_number ''F'' \<and> strcasecmp ''F'' '';'' \<noteq> 0 \<and>
       find_word st ''F'' = 5856 \<and> deref st 5856 = Some fd \<and> is_immediate fd = 0 \<and>
       is_token ''G'' \<and> strcasecmp ''G'' '';'' \<noteq> 0 \<and> strcasecmp ''G'' ''F'' \<noteq> 0 \<and>
       interpret_lines 0 [] (define_word ''G'' [5856] st) = Inr (define_word ''G'' [5856] st) \<and>
       is_token ''2'' \<and> strtol ''2'' = (2, []) \<and> brk st = 5936 \<and>
       (\<exists>st'. interpret_line (4 + 0) (spaced ['':'', ''G'', ''F'', '';'']) st =
                 Inr (define_word ''G'' [5856] st) \<and>
           interpret_line (4 + 0) (spaced ['':'', ''F'', ''2'', '';'']) (define_word ''G'' [5856] st) =
                 Inr st' \<and>
           find_word st' ''F'' = brk (define_word ''G'' [5856] st) \<and>
           brk (define_word ''G'' [5856] st) \<noteq> 5856 \<and>
           deref st' (brk (define_word ''G'' [5856] st)) =
             Some \<lparr>name = ''F'', is_immediate = 0, code = None, data = Some [tag_number 2],
                   data_len = 1\<rparr> \<and>
           deref st' (brk st) =
             Some \<lparr>name = ''G'', is_immediate = 0, code = None, data = Some [5856], data_len = 1\<rparr> \<and>
           deref st' 5856 = Some fd \<and>
           (\<forall>k. execute_word (Suc (Suc k)) (brk st) st' =
                  (case execute_word k 5856 st' of
                     Inl e \<Rightarrow> Inl e | Inr st'' \<Rightarrow> execute_body k (brk st) 1 st'')) \<and>
           (\<forall>k. 0 \<le> sp st' \<longrightarrow> sp st' < STACK_SIZE \<longrightarrow>
                execute_word (Suc (Suc (Suc k))) (brk (define_word ''G'' [5856] st)) st' =
                  Inr (st'\<lparr>stack := (stack st')(sp st' := ucast (2 :: clong)), sp := sp st' + 1\<rparr>)))) \<and>
   map_sum id data_stack
     (interpret_lines 9 ['': F 1 ;'', '': G F ;'', '': F 2 ;'', ''G''] forth0) = Inr [1] \<and>
   map_sum id data_stack
     (interpret_lines 9 ['': F 1 ;'', '': G F ;'', '': F 2 ;'', ''F''] forth0) = Inr [2]"
proof -
  define st where "st = the_state (interpret_line 4 '': F 1 ;'' forth0)"
  define fd where "fd = \<lparr>name = ''F'', is_immediate = 0, code = None, data = Some [3 :: ptr],
     data_len = 1\<rparr>"
  have n4: "(4::nat) = Suc (Suc (Suc (Suc 0)))" by simp
  have n9: "(9::nat) = Suc (Suc (Suc (Suc (Suc (Suc (Suc (Suc (Suc 0))))))))" by simp
  have r: "interpret_line 4 '': F 1 ;'' forth0 = Inr st"
    unfolding st_def n4 by (simp add: forth_eval the_state_def)
  have h1: "reach st" using reach.start r by (rule reach_interpret_line)
  have h: "compiling st = 0"
    "find_word st '':'' = colon_entry" "find_word st '';'' = semicolon_entry"
    "unat (brk st) + Word_block < 2 ^ 64"
    "is_token ''F''" "\<not> is_number ''F''" "strcasecmp ''F'' '';'' \<noteq> 0"
    "find_word st ''F'' = 5856" "deref st 5856 = Some fd" "is_immediate fd = 0"
    "is_token ''G''" "strcasecmp ''G'' '';'' \<noteq> 0" "strcasecmp ''G'' ''F'' \<noteq> 0"
    unfolding st_def fd_def n4
    by (simp_all add: forth_eval the_state_def colon_entry_def semicolon_entry_def
          is_token_def is_number_def)
  let ?s = "define_word ''G'' [5856] st"
  have l: "interpret_lines 0 [] ?s = Inr ?s" by simp
  have hs: "compiling ?s = 0"
    "find_word ?s '':'' = colon_entry" "find_word ?s '';'' = semicolon_entry"
    "unat (brk ?s) + Word_block < 2 ^ 64"
    "is_token ''2''" "strtol ''2'' = (2, [])"
    unfolding st_def n4
    by (simp_all add: forth_eval the_state_def colon_entry_def semicolon_entry_def
          is_token_def define_word_def)
  have b: "brk st = 5936" unfolding st_def n4 by (simp add: forth_eval the_state_def)
  have e: "map_sum id data_stack
     (interpret_lines 9 ['': F 1 ;'', '': G F ;'', '': F 2 ;'', ''G''] forth0) = Inr [1]"
    "map_sum id data_stack
     (interpret_lines 9 ['': F 1 ;'', '': G F ;'', '': F 2 ;'', ''F''] forth0) = Inr [2]"
    unfolding n9 by (simp_all add: forth_eval upt_rec)
  from shadowing_early_binding [OF h1 h l hs, of 0] h1 h l hs(5,6) b e show ?thesis
    unfolding Let_def st_def [symmetric] fd_def [symmetric] by blast
qed

end
